theory Spec2Isabelle
  imports Main "HOL-Library.Sublist"
begin

section \<open>Playlist cover images: path resolution and the upload and remove handlers\<close>

text \<open>
  This theory embeds \<^verbatim>\<open>server/nativeapi/playlist_image.go\<close>: the function
  \<^verbatim>\<open>playlistImagePath\<close> and the two HTTP handlers \<^verbatim>\<open>uploadPlaylistImage\<close> and
  \<^verbatim>\<open>deletePlaylistImage\<close>.

  Go strings are byte sequences, so a Go string is a \<^typ>\<open>string\<close> (a list of 8-bit
  characters). Paths follow the Unix build of \<^verbatim>\<open>path/filepath\<close>: the separator is
  \<^verbatim>\<open>/\<close> and there are no volume names.
\<close>

subsection \<open>Constants of the source file\<close>

definition maxUploadSize :: nat where
  "maxUploadSize = 5 * 2 ^ 20"

definition maxImageDimension :: int where
  "maxImageDimension = 1200"

definition playlistImageDir :: string where
  "playlistImageDir = ''playlist-images''"

subsection \<open>The Go library functions used by \<^verbatim>\<open>playlistImagePath\<close>\<close>

definition Separator :: char where
  "Separator = CHR ''/''"

definition IsPathSeparator :: "char \<Rightarrow> bool" where
  "IsPathSeparator c = (c = Separator)"

text \<open>\<^verbatim>\<open>strings.HasPrefix(s, prefix)\<close> is
  \<^verbatim>\<open>len(s) >= len(prefix) && s[:len(prefix)] == prefix\<close>.\<close>

definition HasPrefix :: "string \<Rightarrow> string \<Rightarrow> bool" where
  "HasPrefix s pre = (length pre \<le> length s \<and> take (length pre) s = pre)"

text \<open>\<^verbatim>\<open>strings.Join(elems, sep)\<close>.\<close>

fun strings_Join :: "string list \<Rightarrow> string \<Rightarrow> string" where
  "strings_Join [] sep = []"
| "strings_Join [e] sep = e"
| "strings_Join (e # es) sep = e @ sep @ strings_Join es sep"

text \<open>
  \<^verbatim>\<open>filepath.Clean\<close> (Unix: no volume name, \<^verbatim>\<open>FromSlash\<close> is the identity):
  \<^verbatim>\<open>
  func Clean(path string) string {
      if path == "" { return "." }
      rooted := os.IsPathSeparator(path[0])
      n := len(path)
      out := lazybuf{path: path}
      r, dotdot := 0, 0
      if rooted {
          out.append(Separator)
          r, dotdot = 1, 1
      }
      for r < n {
          switch {
          case os.IsPathSeparator(path[r]):
              r++
          case path[r] == '.' && (r+1 == n || os.IsPathSeparator(path[r+1])):
              r++
          case path[r] == '.' && path[r+1] == '.' && (r+2 == n || os.IsPathSeparator(path[r+2])):
              r += 2
              switch {
              case out.w > dotdot:
                  out.w--
                  for out.w > dotdot && !os.IsPathSeparator(out.index(out.w)) {
                      out.w--
                  }
              case !rooted:
                  if out.w > 0 { out.append(Separator) }
                  out.append('.')
                  out.append('.')
                  dotdot = out.w
              }
          default:
              if rooted && out.w != 1 || !rooted && out.w != 0 {
                  out.append(Separator)
              }
              for ; r < n && !os.IsPathSeparator(path[r]); r++ {
                  out.append(path[r])
              }
          }
      }
      if out.w == 0 { out.append('.') }
      return out.string()
  }
  \<close>
  It scans the path with the read index \<^verbatim>\<open>r\<close> and writes into a buffer with the write
  index \<^verbatim>\<open>out.w\<close>. The model keeps the unread rest of the path and the written part of
  the buffer, so \<^verbatim>\<open>out.w\<close> is the length of the buffer and lowering \<^verbatim>\<open>out.w\<close>
  truncates it. The second and the third case of the \<^verbatim>\<open>switch\<close> look ahead in the path:
\<close>

fun dot_element :: "string \<Rightarrow> bool" where
  "dot_element [] = False"
| "dot_element [c] = (c = CHR ''.'')"
| "dot_element (c # d # _) = (c = CHR ''.'' \<and> IsPathSeparator d)"

fun dotdot_element :: "string \<Rightarrow> bool" where
  "dotdot_element [c, d] = (c = CHR ''.'' \<and> d = CHR ''.'')"
| "dotdot_element (c # d # e # _) = (c = CHR ''.'' \<and> d = CHR ''.'' \<and> IsPathSeparator e)"
| "dotdot_element _ = False"

text \<open>The inner loop of the \<^verbatim>\<open>..\<close> case, after \<^verbatim>\<open>out.w--\<close>:
  \<^verbatim>\<open>for out.w > dotdot && !IsPathSeparator(out.index(out.w)) { out.w-- }\<close>.\<close>

function backtrack :: "string \<Rightarrow> nat \<Rightarrow> nat \<Rightarrow> nat" where
  "backtrack out dotdot w =
     (if dotdot < w \<and> \<not> IsPathSeparator (out ! w) then backtrack out dotdot (w - 1) else w)"
  by pat_completeness auto
termination
  by (relation "measure (\<lambda>(out, dotdot, w). w)") auto

declare backtrack.simps [simp del]

text \<open>The main loop \<^verbatim>\<open>for r < n\<close>; it returns the buffer and \<^verbatim>\<open>dotdot\<close> at exit.\<close>

function clean_loop :: "bool \<Rightarrow> string \<Rightarrow> string \<Rightarrow> nat \<Rightarrow> string \<times> nat" where
  "clean_loop rooted [] out dotdot = (out, dotdot)"
| "clean_loop rooted (c # cs) out dotdot =
     (if IsPathSeparator c then clean_loop rooted cs out dotdot
      else if dot_element (c # cs) then clean_loop rooted cs out dotdot
      else if dotdot_element (c # cs) then
        (if dotdot < length out then
           clean_loop rooted (drop 2 (c # cs))
             (take (backtrack out dotdot (length out - 1)) out) dotdot
         else if \<not> rooted then
           (let out' = (if 0 < length out then out @ [Separator] else out) @ ''..''
            in clean_loop rooted (drop 2 (c # cs)) out' (length out'))
         else clean_loop rooted (drop 2 (c # cs)) out dotdot)
      else
        (let out' = (if rooted \<and> length out \<noteq> 1 \<or> \<not> rooted \<and> length out \<noteq> 0
                     then out @ [Separator] else out)
         in clean_loop rooted (dropWhile (\<lambda>x. \<not> IsPathSeparator x) (c # cs))
              (out' @ takeWhile (\<lambda>x. \<not> IsPathSeparator x) (c # cs)) dotdot))"
  by pat_completeness auto
termination
  by (relation "measure (\<lambda>(rooted, path, out, dotdot). length path)")
     (auto simp: less_Suc_eq_le length_dropWhile_le)

declare clean_loop.simps(2) [simp del]

definition Clean :: "string \<Rightarrow> string" where
  "Clean path =
     (if path = [] then ''.''
      else
        (let rooted = IsPathSeparator (hd path);
             res = (if rooted then clean_loop rooted (tl path) [Separator] 1
                    else clean_loop rooted path [] 0)
         in if length (fst res) = 0 then ''.'' else fst res))"

text \<open>\<^verbatim>\<open>filepath.Join\<close> drops leading empty elements, joins the rest with the
  separator and cleans the result:
  \<^verbatim>\<open>
  func join(elem []string) string {
      for i, e := range elem {
          if e != "" {
              return Clean(strings.Join(elem[i:], string(Separator)))
          }
      }
      return ""
  }
  \<close>\<close>

fun Join :: "string list \<Rightarrow> string" where
  "Join [] = []"
| "Join (e # es) = (if e \<noteq> [] then Clean (strings_Join (e # es) [Separator]) else Join es)"

subsection \<open>\<^verbatim>\<open>playlistImagePath\<close>\<close>

text \<open>The data folder \<^verbatim>\<open>conf.Server.DataFolder\<close> is a parameter.\<close>

definition playlistImagePath :: "string \<Rightarrow> string \<Rightarrow> string \<times> bool" where
  "playlistImagePath DataFolder playlistID =
     (let p = Join [DataFolder, playlistImageDir, playlistID];
          p = Clean p;
          base = Clean (Join [DataFolder, playlistImageDir])
      in if \<not> HasPrefix p (base @ [Separator]) then ([], False) else (p, True))"

subsection \<open>Data of the handlers\<close>

text \<open>Of \<^verbatim>\<open>model.Playlist\<close> and \<^verbatim>\<open>model.User\<close> the handlers read and write only these
  fields.\<close>

record playlist =
  pls_ID :: string
  OwnerID :: string
  ImagePath :: string

record user =
  user_ID :: string
  IsAdmin :: bool

text \<open>A decoded \<^verbatim>\<open>image.Image\<close>: the size of its bounds (\<^verbatim>\<open>Bounds().Dx()\<close>,
  \<^verbatim>\<open>Bounds().Dy()\<close>) and a tag standing for its pixels.\<close>

record image =
  Dx :: int
  Dy :: int
  pixels :: nat

record config =
  DataFolder :: string
  CoverJpegQuality :: int

text \<open>The request: the URL parameter \<^verbatim>\<open>playlistId\<close>, the user of the request context
  (\<^verbatim>\<open>request.UserFrom\<close>), whether \<^verbatim>\<open>ParseMultipartForm\<close> succeeds on the body limited
  to \<^verbatim>\<open>maxUploadSize\<close> bytes, and the bytes of the form file \<^verbatim>\<open>image\<close>, if there is
  one.\<close>

record request =
  playlistId :: string
  ctx_user :: "user option"
  parse_form_ok :: bool
  form_file :: "string option"

text \<open>The outcomes of the calls into libraries and into the operating system, which the
  handlers do not control: whether each fallible call succeeds (the repository \<^verbatim>\<open>Get\<close>
  and \<^verbatim>\<open>Put\<close>, \<^verbatim>\<open>os.MkdirAll\<close>, \<^verbatim>\<open>imaging.Save\<close>, \<^verbatim>\<open>os.Remove\<close>,
  \<^verbatim>\<open>os.RemoveAll\<close>, \<^verbatim>\<open>json.Marshal\<close>), what \<^verbatim>\<open>image.Decode\<close> returns for a byte
  string, and what \<^verbatim>\<open>imaging.Fit\<close> returns for an image and a box.\<close>

record extern =
  get_error :: bool
  decode :: "string \<Rightarrow> image option"
  fit :: "image \<Rightarrow> int \<Rightarrow> int \<Rightarrow> image"
  mkdir_ok :: bool
  save_ok :: bool
  put_ok :: bool
  remove_ok :: bool
  removeall_ok :: bool
  marshal_ok :: bool

text \<open>The calls a handler makes, in the order it makes them. A call is recorded whether
  it succeeds or fails. \<open>PathCheck\<close> is the call of \<^verbatim>\<open>playlistImagePath\<close>.\<close>

datatype event =
    RepoGet string
  | UserFrom
  | ImageDecode
  | ImageFit
  | PathCheck string
  | MkdirAll string
  | Save string
  | RepoPut playlist
  | OsRemove string
  | OsRemoveAll string

text \<open>The world a handler runs in: the playlist repository, the directories and files
  of the file system, and the calls made so far.\<close>

record world =
  playlists :: "string \<rightharpoonup> playlist"
  dirs :: "string set"
  files :: "string \<rightharpoonup> image \<times> int"
  trace :: "event list"

datatype response = HttpError string nat | JsonID string

definition StatusBadRequest :: nat where "StatusBadRequest = 400"
definition StatusUnauthorized :: nat where "StatusUnauthorized = 401"
definition StatusForbidden :: nat where "StatusForbidden = 403"
definition StatusNotFound :: nat where "StatusNotFound = 404"
definition StatusInternalServerError :: nat where "StatusInternalServerError = 500"

definition log_event :: "event \<Rightarrow> world \<Rightarrow> world" where
  "log_event e w = w\<lparr>trace := trace w @ [e]\<rparr>"

subsection \<open>The repository and the file system\<close>

datatype repo_error = ErrNotFound | ErrOther

text \<open>Modelled from the spec: the playlist repository (\<^verbatim>\<open>ds.Playlist(ctx)\<close>) is not in
  the source file. \<^verbatim>\<open>Get(playlistId)\<close> returns the playlist or fails, with
  \<^verbatim>\<open>NotFound\<close> for an unknown id.\<close>

definition repo_Get :: "extern \<Rightarrow> string \<Rightarrow> world \<Rightarrow> (repo_error + playlist) \<times> world" where
  "repo_Get x pid w =
     ((if get_error x then Inl ErrOther
       else case playlists w pid of None \<Rightarrow> Inl ErrNotFound | Some pls \<Rightarrow> Inr pls),
      log_event (RepoGet pid) w)"

text \<open>Modelled from the spec: \<^verbatim>\<open>Put(playlist)\<close> persists the playlist under its id, or
  fails on a write failure, and then it persists nothing.\<close>

definition repo_Put :: "extern \<Rightarrow> playlist \<Rightarrow> world \<Rightarrow> bool \<times> world" where
  "repo_Put x pls w =
     (if put_ok x
      then (True, (log_event (RepoPut pls) w)\<lparr>playlists := (playlists w)(pls_ID pls \<mapsto> pls)\<rparr>)
      else (False, log_event (RepoPut pls) w))"

text \<open>\<^verbatim>\<open>os.MkdirAll\<close> creates the directory and the parents it needs: every non-empty
  prefix of the path that ends before a separator, and the path itself.\<close>

definition dir_chain :: "string \<Rightarrow> string list" where
  "dir_chain p =
     filter (\<lambda>q. q \<noteq> [] \<and> (q = p \<or> IsPathSeparator (p ! length q))) (prefixes p)"

definition os_MkdirAll :: "extern \<Rightarrow> string \<Rightarrow> world \<Rightarrow> bool \<times> world" where
  "os_MkdirAll x dir w =
     (if mkdir_ok x
      then (True, (log_event (MkdirAll dir) w)\<lparr>dirs := dirs w \<union> set (dir_chain dir)\<rparr>)
      else (False, log_event (MkdirAll dir) w))"

text \<open>\<^verbatim>\<open>imaging.Save\<close> encodes the image as JPEG with the given quality and writes the
  file, replacing what was there.\<close>

definition imaging_Save :: "extern \<Rightarrow> image \<Rightarrow> string \<Rightarrow> int \<Rightarrow> world \<Rightarrow> bool \<times> world" where
  "imaging_Save x img path quality w =
     (if save_ok x
      then (True, (log_event (Save path) w)\<lparr>files := (files w)(path \<mapsto> (img, quality))\<rparr>)
      else (False, log_event (Save path) w))"

text \<open>\<^verbatim>\<open>os.Remove\<close> of a file removes that file and nothing else.\<close>

definition os_Remove :: "extern \<Rightarrow> string \<Rightarrow> world \<Rightarrow> bool \<times> world" where
  "os_Remove x path w =
     (if remove_ok x
      then (True, (log_event (OsRemove path) w)\<lparr>files := (files w)(path := None)\<rparr>)
      else (False, log_event (OsRemove path) w))"

text \<open>\<^verbatim>\<open>os.RemoveAll\<close> removes the path and everything below it.\<close>

definition below :: "string \<Rightarrow> string \<Rightarrow> bool" where
  "below dir q = (q = dir \<or> HasPrefix q (dir @ [Separator]))"

definition os_RemoveAll :: "extern \<Rightarrow> string \<Rightarrow> world \<Rightarrow> bool \<times> world" where
  "os_RemoveAll x dir w =
     (if removeall_ok x
      then (True, (log_event (OsRemoveAll dir) w)
              \<lparr>dirs := Set.filter (\<lambda>q. \<not> below dir q) (dirs w),
               files := (\<lambda>q. if below dir q then None else files w q)\<rparr>)
      else (False, log_event (OsRemoveAll dir) w))"

subsection \<open>\<^verbatim>\<open>uploadPlaylistImage\<close>\<close>

text \<open>
  A handler takes the configuration, the outcomes of the external calls, the request and
  the world, and returns the response with the world after it. Every \<^verbatim>\<open>return\<close> of the
  source is a branch: \<^verbatim>\<open>http.Error(w, message, status)\<close> is \<open>HttpError message status\<close>, and
  the final \<^verbatim>\<open>w.Write\<close> of the marshalled id is \<open>JsonID\<close>. In the terms of the
  specification, 403 is \<^verbatim>\<open>Forbidden\<close>, 404 is \<^verbatim>\<open>NotFound\<close>, 400 with
  \<^verbatim>\<open>invalid playlist id\<close> is \<^verbatim>\<open>InvalidIdentifier\<close>, 400 with \<^verbatim>\<open>invalid image file\<close> is
  \<^verbatim>\<open>InvalidImage\<close>, and 500 after a failed \<^verbatim>\<open>Put\<close> is \<^verbatim>\<open>PersistenceError\<close>.

  The error of \<^verbatim>\<open>os.Remove\<close> is dropped, as in the source. A \<^verbatim>\<open>MkdirAll\<close> or a
  \<^verbatim>\<open>Save\<close> that fails leaves the file system of the model as it was.
\<close>

definition uploadPlaylistImage :: "config \<Rightarrow> extern \<Rightarrow> request \<Rightarrow> world \<Rightarrow> response \<times> world" where
  "uploadPlaylistImage cfg x r w0 =
     (let playlistID = playlistId r;
          (got, w1) = repo_Get x playlistID w0
      in case got of
           Inl ErrNotFound \<Rightarrow> (HttpError ''playlist not found'' StatusNotFound, w1)
         | Inl ErrOther \<Rightarrow> (HttpError ''internal server error'' StatusInternalServerError, w1)
         | Inr pls \<Rightarrow>
        (let w2 = log_event UserFrom w1
         in case ctx_user r of
           None \<Rightarrow> (HttpError ''unauthorized'' StatusUnauthorized, w2)
         | Some usr \<Rightarrow>
        if OwnerID pls \<noteq> user_ID usr \<and> \<not> IsAdmin usr
        then (HttpError ''you do not have permission to modify this playlist'' StatusForbidden, w2)
        else if \<not> parse_form_ok r
        then (HttpError ''file too large (max 5MB)'' StatusBadRequest, w2)
        else
        (case form_file r of
           None \<Rightarrow> (HttpError ''missing or invalid image file'' StatusBadRequest, w2)
         | Some file \<Rightarrow>
        (case decode x file of
           None \<Rightarrow> (HttpError ''invalid image file'' StatusBadRequest, log_event ImageDecode w2)
         | Some img0 \<Rightarrow>
        (let w3 = log_event ImageDecode w2;
             (img, w4) =
               (if maxImageDimension < Dx img0 \<or> maxImageDimension < Dy img0
                then (fit x img0 maxImageDimension maxImageDimension, log_event ImageFit w3)
                else (img0, w3));
             (dir, safe) = playlistImagePath (DataFolder cfg) playlistID;
             w5 = log_event (PathCheck playlistID) w4
         in if \<not> safe then (HttpError ''invalid playlist id'' StatusBadRequest, w5)
            else
        (let (made, w6) = os_MkdirAll x dir w5
         in if \<not> made then (HttpError ''internal server error'' StatusInternalServerError, w6)
            else
        (let destPath = Join [dir, ''cover.jpg''];
             (saved, w7) = imaging_Save x img destPath (CoverJpegQuality cfg) w6
         in if \<not> saved then (HttpError ''internal server error'' StatusInternalServerError, w7)
            else
        (let pls' = pls\<lparr>ImagePath := destPath\<rparr>;
             (put, w8) = repo_Put x pls' w7
         in if \<not> put
            then (let (_, w9) = os_Remove x destPath w8
                  in (HttpError ''internal server error'' StatusInternalServerError, w9))
            else if \<not> marshal_ok x
            then (HttpError ''internal server error'' StatusInternalServerError, w8)
            else (JsonID playlistID, w8)))))))))"

subsection \<open>\<^verbatim>\<open>deletePlaylistImage\<close>\<close>

text \<open>The error of \<^verbatim>\<open>os.RemoveAll\<close> is logged and dropped; an unsafe path skips the
  removal.\<close>

definition deletePlaylistImage :: "config \<Rightarrow> extern \<Rightarrow> request \<Rightarrow> world \<Rightarrow> response \<times> world" where
  "deletePlaylistImage cfg x r w0 =
     (let playlistID = playlistId r;
          (got, w1) = repo_Get x playlistID w0
      in case got of
           Inl ErrNotFound \<Rightarrow> (HttpError ''playlist not found'' StatusNotFound, w1)
         | Inl ErrOther \<Rightarrow> (HttpError ''internal server error'' StatusInternalServerError, w1)
         | Inr pls \<Rightarrow>
        (let w2 = log_event UserFrom w1
         in case ctx_user r of
           None \<Rightarrow> (HttpError ''unauthorized'' StatusUnauthorized, w2)
         | Some usr \<Rightarrow>
        if OwnerID pls \<noteq> user_ID usr \<and> \<not> IsAdmin usr
        then (HttpError ''you do not have permission to modify this playlist'' StatusForbidden, w2)
        else if ImagePath pls = []
        then (HttpError ''playlist has no custom image'' StatusNotFound, w2)
        else
        (let (dir, safe) = playlistImagePath (DataFolder cfg) playlistID;
             w3 = log_event (PathCheck playlistID) w2;
             w4 = (if safe then snd (os_RemoveAll x dir w3) else w3);
             pls' = pls\<lparr>ImagePath := []\<rparr>;
             (put, w5) = repo_Put x pls' w4
         in if \<not> put then (HttpError ''internal server error'' StatusInternalServerError, w5)
            else if \<not> marshal_ok x
            then (HttpError ''internal server error'' StatusInternalServerError, w5)
            else (JsonID playlistID, w5))))"

subsection \<open>Canonical paths\<close>

text \<open>
  The notions the theorems about \<^verbatim>\<open>playlistImagePath\<close> are stated with. A real path
  element is what the default case of the loop of \<^verbatim>\<open>Clean\<close> copies: a non-empty
  name without separator, other than \<^verbatim>\<open>.\<close> and \<^verbatim>\<open>..\<close>. A canonical path is an
  optional leading separator, then some \<^verbatim>\<open>..\<close> elements (none when there is a leading
  separator), then real elements, joined by separators.
\<close>

definition real_element :: "string \<Rightarrow> bool" where
  "real_element e = (e \<noteq> [] \<and> Separator \<notin> set e \<and> e \<noteq> ''.'' \<and> e \<noteq> ''..'')"

definition rend :: "bool \<Rightarrow> nat \<Rightarrow> string list \<Rightarrow> string" where
  "rend rooted u ns =
     (if rooted then [Separator] else []) @ strings_Join (replicate u ''..'' @ ns) [Separator]"

definition wf_state :: "bool \<Rightarrow> nat \<Rightarrow> string list \<Rightarrow> bool" where
  "wf_state rooted u ns = ((rooted \<longrightarrow> u = 0) \<and> (\<forall>n \<in> set ns. real_element n))"

text \<open>The elements of a path: the pieces between separators, as \<^verbatim>\<open>strings.Split\<close> gives
  them.\<close>

fun split_sep :: "string \<Rightarrow> string list" where
  "split_sep [] = [[]]"
| "split_sep (c # cs) =
     (if IsPathSeparator c then [] # split_sep cs
      else (case split_sep cs of [] \<Rightarrow> [[c]] | e # es \<Rightarrow> (c # e) # es))"

text \<open>A path whose elements are all empty, \<^verbatim>\<open>.\<close> or \<^verbatim>\<open>..\<close>.\<close>

definition dots_only :: "string \<Rightarrow> bool" where
  "dots_only p = (\<forall>e \<in> set (split_sep p). e = [] \<or> e = ''.'' \<or> e = ''..'')"

text \<open>The ASCII letters and digits.\<close>

definition alphanumeric :: "char \<Rightarrow> bool" where
  "alphanumeric c =
     (let n = (of_char c :: nat)
      in 48 \<le> n \<and> n \<le> 57 \<or> 65 \<le> n \<and> n \<le> 90 \<or> 97 \<le> n \<and> n \<le> 122)"

text \<open>The string that \<^verbatim>\<open>filepath.Join(DataFolder, playlistImageDir)\<close> cleans.\<close>

definition joined :: "string \<Rightarrow> string" where
  "joined root = (if root = [] then playlistImageDir else root @ Separator # playlistImageDir)"

text \<open>The flag \<^verbatim>\<open>rooted\<close> of \<^verbatim>\<open>Clean\<close> and the part of the path its loop reads.\<close>

definition path_rooted :: "string \<Rightarrow> bool" where
  "path_rooted p = IsPathSeparator (hd p)"

definition path_body :: "string \<Rightarrow> string" where
  "path_body p = (if path_rooted p then tl p else p)"

subsection \<open>Notions for the handlers\<close>

text \<open>The steps of the specification, and the step each call belongs to. The steps of a
  run are the steps of the calls it added to the trace, in order, a step that takes several
  calls counted once.\<close>

datatype step =
  Fetch | Authorize | Normalize | ResolvePath | SaveImage | CommitPath | Compensate | Delete

fun step_of :: "event \<Rightarrow> step" where
  "step_of (RepoGet _) = Fetch"
| "step_of UserFrom = Authorize"
| "step_of ImageDecode = Normalize"
| "step_of ImageFit = Normalize"
| "step_of (PathCheck _) = ResolvePath"
| "step_of (MkdirAll _) = SaveImage"
| "step_of (Save _) = SaveImage"
| "step_of (RepoPut _) = CommitPath"
| "step_of (OsRemove _) = Compensate"
| "step_of (OsRemoveAll _) = Delete"

definition steps :: "world \<Rightarrow> world \<Rightarrow> step list" where
  "steps w w' = remdups_adj (map step_of (drop (length (trace w)) (trace w')))"

definition authorized :: "playlist \<Rightarrow> user \<Rightarrow> bool" where
  "authorized pls usr = (OwnerID pls = user_ID usr \<or> IsAdmin usr)"

definition oversized :: "image \<Rightarrow> bool" where
  "oversized img = (maxImageDimension < Dx img \<or> maxImageDimension < Dy img)"

text \<open>The scenario of the specification: playlist \<^verbatim>\<open>p1\<close> of user \<^verbatim>\<open>u1\<close>, a second user
  \<^verbatim>\<open>u2\<close> who is not an administrator, a 2000 by 1000 image, the data folder
  \<^verbatim>\<open>/data\<close>. The playlist id and its image path vary, and so do the outcomes of the
  repository write and of the directory removal.\<close>

definition example_cfg :: config where
  "example_cfg = \<lparr>DataFolder = ''/data'', CoverJpegQuality = 75\<rparr>"

definition example_owner :: user where
  "example_owner = \<lparr>user_ID = ''u1'', IsAdmin = False\<rparr>"

definition example_other :: user where
  "example_other = \<lparr>user_ID = ''u2'', IsAdmin = False\<rparr>"

definition example_image :: image where
  "example_image = \<lparr>Dx = 2000, Dy = 1000, pixels = 7\<rparr>"

definition example_playlist :: "string \<Rightarrow> string \<Rightarrow> playlist" where
  "example_playlist pid path = \<lparr>pls_ID = pid, OwnerID = ''u1'', ImagePath = path\<rparr>"

definition example_world :: "string \<Rightarrow> string \<Rightarrow> world" where
  "example_world pid path =
     \<lparr>playlists = [pid \<mapsto> example_playlist pid path], dirs = {}, files = Map.empty, trace = []\<rparr>"

definition example_extern :: "bool \<Rightarrow> bool \<Rightarrow> extern" where
  "example_extern put removeall =
     \<lparr>get_error = False,
      decode = (\<lambda>bytes. if bytes = ''PNG'' then Some example_image else None),
      fit = (\<lambda>img w h. \<lparr>Dx = w, Dy = h div 2, pixels = pixels img\<rparr>),
      mkdir_ok = True, save_ok = True, put_ok = put, remove_ok = True,
      removeall_ok = removeall, marshal_ok = True\<rparr>"

definition example_request :: "string \<Rightarrow> user \<Rightarrow> string \<Rightarrow> request" where
  "example_request pid usr bytes =
     \<lparr>playlistId = pid, ctx_user = Some usr, parse_form_ok = True, form_file = Some bytes\<rparr>"

section \<open>Properties of the path functions\<close>

lemma HasPrefix_iff: "HasPrefix s pre \<longleftrightarrow> prefix pre s"
  unfolding HasPrefix_def prefix_def
  by (metis append_eq_conv_conj append_take_drop_id le_add1 length_append)

lemma backtrack_stop:
  "dotdot \<le> m \<Longrightarrow> m \<le> w \<Longrightarrow> (m = dotdot \<or> IsPathSeparator (out ! m)) \<Longrightarrow>
   (\<forall>i. m < i \<and> i \<le> w \<longrightarrow> \<not> IsPathSeparator (out ! i)) \<Longrightarrow>
   backtrack out dotdot w = m"
proof (induction out dotdot w rule: backtrack.induct)
  case (1 out dotdot w)
  show ?case
  proof (cases "m = w")
    case True
    with 1(2-) show ?thesis by (subst backtrack.simps) auto
  next
    case False
    with 1(3) have lt: "m < w" by simp
    with 1(2,5) have c: "dotdot < w \<and> \<not> IsPathSeparator (out ! w)" by auto
    have "backtrack out dotdot (w - 1) = m"
    proof (rule 1(1)[OF c 1(2)])
      show "m \<le> w - 1" using lt by simp
      show "m = dotdot \<or> IsPathSeparator (out ! m)" by (rule 1(4))
      show "\<forall>i. m < i \<and> i \<le> w - 1 \<longrightarrow> \<not> IsPathSeparator (out ! i)" using 1(5) by auto
    qed
    with c show ?thesis by (subst backtrack.simps) simp
  qed
qed

lemma dot_element_append:
  "dot_element ((c # cs) @ Separator # ys) = dot_element (c # cs)"
  by (cases cs) (auto simp: IsPathSeparator_def)

lemma dotdot_element_append:
  "dotdot_element ((c # cs) @ Separator # ys) = dotdot_element (c # cs)"
proof (cases cs)
  case Nil
  then show ?thesis by (cases ys) (auto simp: IsPathSeparator_def Separator_def)
next
  case (Cons d ds)
  then show ?thesis by (cases ds) (auto simp: IsPathSeparator_def Separator_def)
qed

lemma dotdot_element_length: "dotdot_element xs \<Longrightarrow> 2 \<le> length xs"
  by (cases xs rule: dotdot_element.cases) auto

lemma takeWhile_sep_append:
  "takeWhile (\<lambda>x. \<not> IsPathSeparator x) (xs @ Separator # ys) = takeWhile (\<lambda>x. \<not> IsPathSeparator x) xs"
  by (induction xs) (auto simp: IsPathSeparator_def)

lemma dropWhile_sep_append:
  "dropWhile (\<lambda>x. \<not> IsPathSeparator x) (xs @ Separator # ys) = dropWhile (\<lambda>x. \<not> IsPathSeparator x) xs @ Separator # ys"
  by (induction xs) (auto simp: IsPathSeparator_def)

lemma clean_loop_split:
  "clean_loop rooted (xs @ Separator # ys) out dotdot =
     (case clean_loop rooted xs out dotdot of (out', dotdot') \<Rightarrow> clean_loop rooted ys out' dotdot')"
proof (induction rooted xs out dotdot rule: clean_loop.induct)
  case (1 rooted out dotdot)
  show ?case by (simp add: clean_loop.simps(2) IsPathSeparator_def)
next
  case (2 rooted c cs out dotdot)
  show ?case
  proof (cases "IsPathSeparator c")
    case True
    then show ?thesis using 2(1) by (simp add: clean_loop.simps(2))
  next
    case ns: False
    show ?thesis
    proof (cases "dot_element (c # cs)")
      case True
      then have "dot_element (c # cs @ Separator # ys)" using dot_element_append[of c cs ys] by simp
      then show ?thesis using 2(2) ns True by (simp add: clean_loop.simps(2))
    next
      case nd: False
      then have nd': "\<not> dot_element (c # cs @ Separator # ys)" using dot_element_append[of c cs ys] by simp
      show ?thesis
      proof (cases "dotdot_element (c # cs)")
        case True
        then have dd': "dotdot_element (c # cs @ Separator # ys)" using dotdot_element_append[of c cs ys] by simp
        from True have "1 \<le> length cs" using dotdot_element_length[of "c # cs"] by simp
        then have dr: "drop (Suc 0) (cs @ Separator # ys) = drop (Suc 0) cs @ Separator # ys" by simp
        show ?thesis
          using 2(3,4,5) ns nd nd' True dd' dr
          by (simp add: clean_loop.simps(2)[of rooted c] Let_def)
      next
        case ndd: False
        then have ndd': "\<not> dotdot_element (c # cs @ Separator # ys)" using dotdot_element_append[of c cs ys] by simp
        have tw: "takeWhile (\<lambda>x. \<not> IsPathSeparator x) (cs @ Separator # ys) = takeWhile (\<lambda>x. \<not> IsPathSeparator x) cs"
          by (rule takeWhile_sep_append)
        have dw: "dropWhile (\<lambda>x. \<not> IsPathSeparator x) (cs @ Separator # ys) = dropWhile (\<lambda>x. \<not> IsPathSeparator x) cs @ Separator # ys"
          by (rule dropWhile_sep_append)
        show ?thesis
          using 2(6) ns nd nd' ndd ndd' tw dw
          by (simp add: clean_loop.simps(2)[of rooted c] Let_def)
      qed
    qed
  qed
qed

lemma strings_Join_snoc:
  "strings_Join (es @ [e]) sep = (if es = [] then e else strings_Join es sep @ sep @ e)"
  by (induction es sep rule: strings_Join.induct) auto

lemma strings_Join_Cons:
  "strings_Join (e # es) sep = (if es = [] then e else e @ sep @ strings_Join es sep)"
  by (cases es) auto

lemma rend_snoc:
  "rend r u (ns @ [n]) = rend r u ns @ (if u = 0 \<and> ns = [] then [] else [Separator]) @ n"
  using strings_Join_snoc[of "replicate u ''..'' @ ns" n "[Separator]"]
  by (auto simp: rend_def)

lemma rend_Suc:
  "rend False (Suc u) [] = (if u = 0 then [] else rend False u [] @ [Separator]) @ ''..''"
  using strings_Join_snoc[of "replicate u ''..''" "''..''" "[Separator]"]
  by (auto simp: rend_def replicate_append_same)

lemma rend_rooted_Nil [simp]: "rend True 0 [] = [Separator]"
  by (simp add: rend_def)

lemma rend_Nil_Nil [simp]: "rend False 0 [] = []"
  by (simp add: rend_def)

lemma length_rend_Suc: "0 < length (rend False (Suc u) [])"
  by (simp add: rend_Suc)

lemma rend_dd_le: "length (rend r u []) \<le> length (rend r u ns)"
  by (induction ns rule: rev_induct) (auto simp: rend_snoc)

lemma rend_dd_less:
  "real_element n \<Longrightarrow> length (rend r u []) < length (rend r u (ns @ [n]))"
  using rend_dd_le[of r u ns] by (auto simp: rend_snoc real_element_def)

lemma real_element_shape:
  assumes "real_element e"
  obtains c cs where "e = c # cs" "\<not> IsPathSeparator c" "\<not> dot_element (c # cs)"
    "\<not> dotdot_element (c # cs)" "takeWhile (\<lambda>x. \<not> IsPathSeparator x) (c # cs) = c # cs"
    "dropWhile (\<lambda>x. \<not> IsPathSeparator x) (c # cs) = []"
proof -
  from assms obtain c cs where e: "e = c # cs" by (cases e) (auto simp: real_element_def)
  from assms have ns: "\<forall>x \<in> set e. \<not> IsPathSeparator x"
    by (auto simp: real_element_def IsPathSeparator_def)
  have 1: "\<not> IsPathSeparator c" using ns e by simp
  have 2: "\<not> dot_element (c # cs)"
    using assms ns e by (cases cs) (auto simp: real_element_def)
  have 3: "\<not> dotdot_element (c # cs)"
  proof (cases cs)
    case Nil then show ?thesis by simp
  next
    case (Cons d ds)
    then show ?thesis using assms ns e by (cases ds) (auto simp: real_element_def)
  qed
  have 4: "takeWhile (\<lambda>x. \<not> IsPathSeparator x) (c # cs) = c # cs"
    using ns e by (simp add: takeWhile_eq_all_conv)
  have 5: "dropWhile (\<lambda>x. \<not> IsPathSeparator x) (c # cs) = []"
    using ns e by simp
  from e 1 2 3 4 5 show thesis by (rule that)
qed

lemma clean_loop_real:
  assumes "real_element e"
  shows "clean_loop r e out dd =
           ((if r \<and> length out \<noteq> 1 \<or> \<not> r \<and> length out \<noteq> 0 then out @ [Separator] else out) @ e, dd)"
proof -
  from assms obtain c cs where e: "e = c # cs" and f: "\<not> IsPathSeparator c" "\<not> dot_element (c # cs)"
    "\<not> dotdot_element (c # cs)" "takeWhile (\<lambda>x. \<not> IsPathSeparator x) (c # cs) = c # cs"
    "dropWhile (\<lambda>x. \<not> IsPathSeparator x) (c # cs) = []"
    by (rule real_element_shape)
  show ?thesis unfolding e
    by (subst clean_loop.simps(2)) (simp only: f if_False Let_def clean_loop.simps(1))
qed

lemma real_takeWhile:
  assumes "\<not> IsPathSeparator c" "\<not> dot_element (c # cs)" "\<not> dotdot_element (c # cs)"
  shows "real_element (takeWhile (\<lambda>x. \<not> IsPathSeparator x) (c # cs))"
proof -
  let ?t = "takeWhile (\<lambda>x. \<not> IsPathSeparator x) (c # cs)"
  have ne: "?t \<noteq> []" using assms(1) by simp
  have nosep: "Separator \<notin> set ?t"
    using set_takeWhileD[of Separator "\<lambda>x. \<not> IsPathSeparator x" "c # cs"]
    by (auto simp: IsPathSeparator_def)
  have nd: "?t \<noteq> ''.''"
  proof
    assume a: "?t = ''.''"
    then have c: "c = CHR ''.''" using assms(1) by simp
    from a assms(1) have "takeWhile (\<lambda>x. \<not> IsPathSeparator x) cs = []" by simp
    then have "cs = [] \<or> IsPathSeparator (hd cs)" by (cases cs) (auto split: if_splits)
    then have "dot_element (c # cs)" using c by (cases cs) auto
    with assms(2) show False by simp
  qed
  have ndd: "?t \<noteq> ''..''"
  proof
    assume a: "?t = ''..''"
    then have c: "c = CHR ''.''" using assms(1) by simp
    from a assms(1) have t: "takeWhile (\<lambda>x. \<not> IsPathSeparator x) cs = ''.''" by simp
    then obtain d ds where cs: "cs = d # ds" by (cases cs) auto
    from t cs have d: "d = CHR ''.''" and t2: "takeWhile (\<lambda>x. \<not> IsPathSeparator x) ds = []"
      by (auto split: if_splits)
    from t2 have "ds = [] \<or> IsPathSeparator (hd ds)" by (cases ds) (auto split: if_splits)
    then have "dotdot_element (c # cs)" using c d cs by (cases ds) auto
    with assms(3) show False by simp
  qed
  from ne nosep nd ndd show ?thesis by (simp add: real_element_def)
qed

lemma wf_snoc: "wf_state r u (ns @ [n]) \<longleftrightarrow> wf_state r u ns \<and> real_element n"
  by (auto simp: wf_state_def)

lemma backtrack_rend:
  assumes "real_element n"
  shows "take (backtrack (rend r u (ms @ [n])) (length (rend r u [])) (length (rend r u (ms @ [n])) - 1))
           (rend r u (ms @ [n])) = rend r u ms"
proof -
  let ?out = "rend r u (ms @ [n])"
  let ?m = "length (rend r u ms)"
  let ?s = "(if u = 0 \<and> ms = [] then [] else [Separator])"
  have out: "?out = rend r u ms @ ?s @ n" by (rule rend_snoc)
  from assms have nne: "n \<noteq> []" and nosep: "\<forall>x \<in> set n. \<not> IsPathSeparator x"
    by (auto simp: real_element_def IsPathSeparator_def)
  have "backtrack ?out (length (rend r u [])) (length ?out - 1) = ?m"
  proof (rule backtrack_stop)
    show "length (rend r u []) \<le> ?m" by (rule rend_dd_le)
    have ln: "0 < length n" using nne by simp
    have "?m + length n \<le> length ?out" by (subst out) simp
    with ln show "?m \<le> length ?out - 1" by linarith
    show "?m = length (rend r u []) \<or> IsPathSeparator (?out ! ?m)"
    proof (cases "u = 0 \<and> ms = []")
      case True then show ?thesis by simp
    next
      case False
      have "?out = rend r u ms @ Separator # n" by (subst out) (use False in auto)
      then have "?out ! ?m = Separator" by (simp add: nth_append)
      then show ?thesis by (simp add: IsPathSeparator_def)
    qed
    show "\<forall>i. ?m < i \<and> i \<le> length ?out - 1 \<longrightarrow> \<not> IsPathSeparator (?out ! i)"
    proof (intro allI impI)
      fix i assume i: "?m < i \<and> i \<le> length ?out - 1"
      have "?out ! i \<in> set n"
      proof (cases "u = 0 \<and> ms = []")
        case True
        have o: "?out = rend r u ms @ n" by (subst out) (simp add: True)
        from i nne have "i - ?m < length n" using o by (cases n) auto
        moreover have "?out ! i = n ! (i - ?m)" using i by (simp add: o nth_append)
        ultimately show ?thesis by simp
      next
        case False
        have o: "?out = rend r u ms @ Separator # n" by (subst out) (use False in auto)
        from i nne have l: "i - ?m - 1 < length n" using o by (cases n) auto
        have "?out ! i = (Separator # n) ! (i - ?m)" using i by (simp add: o nth_append)
        also have "\<dots> = n ! (i - ?m - 1)" using i by (cases "i - ?m") auto
        finally show ?thesis using l by simp
      qed
      with nosep show "\<not> IsPathSeparator (?out ! i)" by simp
    qed
  qed
  then show ?thesis by (simp add: out)
qed

lemma rend_eq_dd: "wf_state r u ns \<Longrightarrow> \<not> length (rend r u []) < length (rend r u ns) \<Longrightarrow> ns = []"
  using rend_dd_less by (cases ns rule: rev_cases) (auto simp: wf_snoc)

lemma length_rend_rooted: "wf_state True u ns \<Longrightarrow> length (rend True u ns) = 1 \<longleftrightarrow> ns = []"
proof (cases ns rule: rev_cases)
  case Nil
  assume "wf_state True u ns"
  then show ?thesis using Nil by (simp add: wf_state_def)
next
  case (snoc ms n)
  assume "wf_state True u ns"
  then have "u = 0" "real_element n" using snoc by (auto simp: wf_state_def)
  then show ?thesis using snoc rend_dd_less[of n True 0 ms] by auto
qed

lemma length_rend_unrooted: "wf_state False u ns \<Longrightarrow> length (rend False u ns) = 0 \<longleftrightarrow> u = 0 \<and> ns = []"
proof (cases ns rule: rev_cases)
  case Nil
  then show ?thesis using length_rend_Suc by (cases u) auto
next
  case (snoc ms n)
  assume "wf_state False u ns"
  then show ?thesis using snoc rend_dd_less[of n False u ms] by (auto simp: wf_snoc)
qed

lemma rend_push:
  assumes "wf_state r u ns"
  shows "(if r \<and> length (rend r u ns) \<noteq> 1 \<or> \<not> r \<and> length (rend r u ns) \<noteq> 0
          then rend r u ns @ [Separator] else rend r u ns) @ e = rend r u (ns @ [e])"
proof (cases r)
  case True
  with assms have u: "u = 0" by (simp add: wf_state_def)
  from assms True have "wf_state True u ns" by simp
  from length_rend_rooted[OF this] show ?thesis using True u
    by (auto simp: rend_snoc)
next
  case False
  from assms False have "wf_state False u ns" by simp
  from length_rend_unrooted[OF this] show ?thesis using False
    by (auto simp: rend_snoc)
qed

lemma rend_up:
  "(if 0 < length (rend False u []) then rend False u [] @ [Separator] else rend False u []) @ ''..''
     = rend False (Suc u) []"
  using length_rend_Suc by (cases u) (auto simp: rend_Suc)

lemma clean_loop_invariant:
  "wf_state r u ns \<Longrightarrow>
   \<exists>u' ns'. wf_state r u' ns' \<and>
     clean_loop r path (rend r u ns) (length (rend r u [])) = (rend r u' ns', length (rend r u' []))"
proof (induction "length path" arbitrary: path u ns rule: less_induct)
  case less
  show ?case
  proof (cases path)
    case Nil
    with less.prems show ?thesis by auto
  next
    case (Cons c cs)
    show ?thesis
    proof (cases "IsPathSeparator c")
      case True
      have "\<exists>u' ns'. wf_state r u' ns' \<and>
        clean_loop r cs (rend r u ns) (length (rend r u [])) = (rend r u' ns', length (rend r u' []))"
        by (rule less.hyps) (use Cons less.prems in auto)
      then show ?thesis using True Cons by (simp add: clean_loop.simps(2))
    next
      case ns: False
      show ?thesis
      proof (cases "dot_element (c # cs)")
        case True
        have "\<exists>u' ns'. wf_state r u' ns' \<and>
          clean_loop r cs (rend r u ns) (length (rend r u [])) = (rend r u' ns', length (rend r u' []))"
          by (rule less.hyps) (use Cons less.prems in auto)
        then show ?thesis using True ns Cons by (simp add: clean_loop.simps(2))
      next
        case nd: False
        show ?thesis
        proof (cases "dotdot_element (c # cs)")
          case dd: True
          let ?rest = "drop 2 (c # cs)"
          have rl: "length ?rest < length path" using Cons by simp
          show ?thesis
          proof (cases "length (rend r u []) < length (rend r u ns)")
            case True
            then have "ns \<noteq> []" by auto
            then obtain ms n where nsn: "ns = ms @ [n]" by (cases ns rule: rev_cases) auto
            with less.prems have wfm: "wf_state r u ms" and rn: "real_element n" by (auto simp: wf_snoc)
            have bt: "take (backtrack (rend r u ns) (length (rend r u [])) (length (rend r u ns) - 1)) (rend r u ns)
                      = rend r u ms"
              unfolding nsn by (rule backtrack_rend[OF rn])
            have "\<exists>u' ns'. wf_state r u' ns' \<and>
              clean_loop r ?rest (rend r u ms) (length (rend r u [])) = (rend r u' ns', length (rend r u' []))"
              by (rule less.hyps[OF rl wfm])
            then show ?thesis
              unfolding Cons
              by (subst clean_loop.simps(2)) (simp only: ns nd dd True bt if_True if_False)
          next
            case False
            have nsn: "ns = []" by (rule rend_eq_dd[OF less.prems False])
            show ?thesis
            proof (cases r)
              case rt: True
              have "\<exists>u' ns'. wf_state r u' ns' \<and>
                clean_loop r ?rest (rend r u ns) (length (rend r u [])) = (rend r u' ns', length (rend r u' []))"
                by (rule less.hyps[OF rl less.prems])
              then show ?thesis
                unfolding Cons
                using False rt
                by (subst clean_loop.simps(2)) (simp add: ns nd dd)
            next
              case nr: False
              then have rF: "r = False" by simp
              have wf': "wf_state r (Suc u) []" using nr by (simp add: wf_state_def)
              have "\<exists>u' ns'. wf_state r u' ns' \<and>
                clean_loop r ?rest (rend r (Suc u) []) (length (rend r (Suc u) [])) = (rend r u' ns', length (rend r u' []))"
                by (rule less.hyps[OF rl wf'])
              then show ?thesis
                unfolding Cons nsn rF
                by (subst clean_loop.simps(2))
                   (simp only: ns nd dd Let_def rend_up if_True if_False less_irrefl not_False_eq_True)
            qed
          qed
        next
          case ndd: False
          let ?el = "takeWhile (\<lambda>x. \<not> IsPathSeparator x) (c # cs)"
          let ?rest = "dropWhile (\<lambda>x. \<not> IsPathSeparator x) (c # cs)"
          have rl: "length ?rest < length path"
            using Cons ns length_dropWhile_le[of "\<lambda>x. \<not> IsPathSeparator x" cs] by simp
          have re: "real_element ?el" using ns nd ndd by (rule real_takeWhile)
          have wf': "wf_state r u (ns @ [?el])" using less.prems re by (simp add: wf_snoc)
          have "\<exists>u' ns'. wf_state r u' ns' \<and>
            clean_loop r ?rest (rend r u (ns @ [?el])) (length (rend r u [])) = (rend r u' ns', length (rend r u' []))"
            by (rule less.hyps[OF rl wf'])
          then show ?thesis
            unfolding Cons
            by (subst clean_loop.simps(2))
               (simp only: ns nd ndd if_False Let_def rend_push[OF less.prems])
        qed
      qed
    qed
  qed
qed

lemma clean_loop_sep: "clean_loop r (Separator # ys) out dd = clean_loop r ys out dd"
  by (simp add: clean_loop.simps(2) IsPathSeparator_def)

lemma run_names:
  "wf_state r u ns \<Longrightarrow> \<forall>n \<in> set ms. real_element n \<Longrightarrow>
   clean_loop r (strings_Join ms [Separator]) (rend r u ns) (length (rend r u [])) =
     (rend r u (ns @ ms), length (rend r u []))"
proof (induction ms arbitrary: ns)
  case Nil
  then show ?case by simp
next
  case (Cons m ms)
  from Cons.prems have rm: "real_element m" by simp
  have wf': "wf_state r u (ns @ [m])" using Cons.prems by (simp add: wf_snoc)
  have one: "clean_loop r m (rend r u ns) (length (rend r u [])) =
               (rend r u (ns @ [m]), length (rend r u []))"
    by (simp only: clean_loop_real[OF rm] rend_push[OF Cons.prems(1)])
  show ?case
  proof (cases ms)
    case Nil
    then show ?thesis using one by simp
  next
    case (Cons m' ms')
    have sj: "strings_Join (m # ms) [Separator] = m @ Separator # strings_Join ms [Separator]"
      using Cons by simp
    have "clean_loop r (strings_Join (m # ms) [Separator]) (rend r u ns) (length (rend r u [])) =
          clean_loop r (strings_Join ms [Separator]) (rend r u (ns @ [m])) (length (rend r u []))"
      unfolding sj by (simp add: clean_loop_split one)
    also have "\<dots> = (rend r u ((ns @ [m]) @ ms), length (rend r u []))"
      by (rule Cons.IH[OF wf']) (use Cons.prems in simp)
    finally show ?thesis by simp
  qed
qed

lemma clean_loop_dotdot_up:
  "clean_loop False ''..'' (rend False u []) (length (rend False u [])) =
     (rend False (Suc u) [], length (rend False (Suc u) []))"
proof -
  have a: "\<not> IsPathSeparator CHR ''.''" by (simp add: IsPathSeparator_def Separator_def)
  have b: "\<not> dot_element ''..''" by (simp add: IsPathSeparator_def Separator_def)
  have c: "dotdot_element ''..''" by simp
  have d: "drop 2 ''..'' = []" by simp
  show ?thesis
    by (subst clean_loop.simps(2))
       (simp only: a b c d if_True if_False less_irrefl Let_def rend_up not_False_eq_True
          clean_loop.simps(1))
qed

lemma run_ups:
  "\<forall>n \<in> set ms. real_element n \<Longrightarrow>
   clean_loop False (strings_Join (replicate k ''..'' @ ms) [Separator])
       (rend False u []) (length (rend False u [])) =
     (rend False (u + k) ms, length (rend False (u + k) []))"
proof (induction k arbitrary: u)
  case 0
  have "wf_state False u []" by (simp add: wf_state_def)
  from run_names[OF this 0] show ?case by simp
next
  case (Suc k)
  let ?rest = "replicate k ''..'' @ ms"
  show ?case
  proof (cases "?rest = []")
    case True
    then show ?thesis using clean_loop_dotdot_up[of u] by simp
  next
    case False
    then have sj: "strings_Join (replicate (Suc k) ''..'' @ ms) [Separator] =
                   ''..'' @ Separator # strings_Join ?rest [Separator]"
      by (simp add: strings_Join_Cons)
    show ?thesis
      unfolding sj using Suc.IH[OF Suc.prems, of "Suc u"]
      by (subst clean_loop_split) (simp add: clean_loop_dotdot_up)
  qed
qed

lemma hd_strings_Join_not_sep:
  "es \<noteq> [] \<Longrightarrow> \<forall>e \<in> set es. e \<noteq> [] \<and> Separator \<notin> set e \<Longrightarrow>
   strings_Join es [Separator] \<noteq> [] \<and> hd (strings_Join es [Separator]) \<noteq> Separator"
proof (cases es)
  case Nil
  assume "es \<noteq> []"
  with Nil show ?thesis by simp
next
  case (Cons a list)
  assume "\<forall>e \<in> set es. e \<noteq> [] \<and> Separator \<notin> set e"
  with Cons have a: "a \<noteq> []" "Separator \<notin> set a" by auto
  then obtain c cs where acs: "a = c # cs" by (cases a) auto
  with a have "c \<noteq> Separator" by auto
  then show ?thesis unfolding Cons acs by (simp add: strings_Join_Cons)
qed

lemma elems_ok:
  "wf_state r u ns \<Longrightarrow> \<forall>e \<in> set (replicate u ''..'' @ ns). e \<noteq> [] \<and> Separator \<notin> set e"
proof
  fix e assume e: "e \<in> set (replicate u ''..'' @ ns)"
  assume wf: "wf_state r u ns"
  have dd: "''..'' \<noteq> [] \<and> Separator \<notin> set ''..''" by (simp add: Separator_def)
  from e have "e = ''..'' \<or> e \<in> set ns" by auto
  then show "e \<noteq> [] \<and> Separator \<notin> set e"
  proof
    assume "e = ''..''" with dd show ?thesis by simp
  next
    assume "e \<in> set ns"
    with wf have "real_element e" by (simp add: wf_state_def)
    then show ?thesis by (simp add: real_element_def)
  qed
qed

lemma Clean_rend:
  assumes wf: "wf_state r u ns" and ne: "rend r u ns \<noteq> []"
  shows "Clean (rend r u ns) = rend r u ns"
proof (cases r)
  case True
  with wf have u: "u = 0" and rn: "\<forall>n \<in> set ns. real_element n" by (auto simp: wf_state_def)
  have p: "rend r u ns = Separator # strings_Join ns [Separator]" using True u by (simp add: rend_def)
  have "wf_state True 0 []" by (simp add: wf_state_def)
  from run_names[OF this rn]
  have "clean_loop True (strings_Join ns [Separator]) [Separator] 1 = (rend True 0 ns, 1)" by simp
  then show ?thesis unfolding p using True u
    by (simp add: Clean_def IsPathSeparator_def rend_def)
next
  case False
  let ?es = "replicate u ''..'' @ ns"
  have p: "rend r u ns = strings_Join ?es [Separator]" using False by (simp add: rend_def)
  from ne p have "?es \<noteq> []" by auto
  from hd_strings_Join_not_sep[OF this elems_ok[OF wf]]
  have h: "\<not> IsPathSeparator (hd (strings_Join ?es [Separator]))" by (simp add: IsPathSeparator_def)
  from wf have rn: "\<forall>n \<in> set ns. real_element n" by (auto simp: wf_state_def)
  from run_ups[OF rn, of u 0]
  have "clean_loop False (strings_Join ?es [Separator]) [] 0 = (rend False u ns, length (rend False u []))"
    by simp
  then show ?thesis unfolding p using h ne[unfolded p] False
    by (simp add: Clean_def rend_def)
qed

lemma Clean_cases:
  obtains "Clean s = ''.''"
  | r u ns where "wf_state r u ns" "rend r u ns \<noteq> []" "Clean s = rend r u ns"
proof (cases "s = []")
  case True
  then have "Clean s = ''.''" by (simp add: Clean_def)
  then show thesis by (rule that(1))
next
  case False
  let ?r = "IsPathSeparator (hd s)"
  let ?p = "if ?r then tl s else s"
  have wf0: "wf_state ?r 0 []" by (simp add: wf_state_def)
  from clean_loop_invariant[OF wf0, of ?p]
  obtain u' ns' where wf': "wf_state ?r u' ns'"
    and l: "clean_loop ?r ?p (rend ?r 0 []) (length (rend ?r 0 [])) = (rend ?r u' ns', length (rend ?r u' []))"
    by blast
  have i: "rend ?r 0 [] = (if ?r then [Separator] else [])" "length (rend ?r 0 []) = (if ?r then 1 else 0)"
    by auto
  have c: "Clean s = (if length (rend ?r u' ns') = 0 then ''.'' else rend ?r u' ns')"
    using False l unfolding i by (auto simp: Clean_def Let_def)
  show thesis
  proof (cases "rend ?r u' ns' = []")
    case True
    with c have "Clean s = ''.''" by simp
    then show thesis by (rule that(1))
  next
    case ne: False
    with c have "Clean s = rend ?r u' ns'" by simp
    with wf' ne show thesis by (rule that(2))
  qed
qed

lemma Clean_dot: "Clean ''.'' = ''.''"
  by (simp add: Clean_def clean_loop.simps(2) IsPathSeparator_def Separator_def)

lemma Clean_idem: "Clean (Clean s) = Clean s"
  by (rule Clean_cases[of s]) (simp_all add: Clean_dot Clean_rend)

lemma Clean_nonempty: "Clean s \<noteq> []"
  by (rule Clean_cases[of s]) auto

lemma real_playlistImageDir: "real_element playlistImageDir"
  by (simp add: real_element_def playlistImageDir_def Separator_def)

lemma Join2: "Join [root, playlistImageDir] = Clean (joined root)"
  by (simp add: joined_def playlistImageDir_def)

lemma Join3: "Join [root, playlistImageDir, pid] = Clean (joined root @ Separator # pid)"
  by (simp add: joined_def playlistImageDir_def)

declare Join.simps [simp del]

lemma joined_nonempty: "joined root \<noteq> []"
  by (simp add: joined_def playlistImageDir_def)

lemma Clean_unfold:
  "p \<noteq> [] \<Longrightarrow> Clean p =
     (let out = fst (clean_loop (path_rooted p) (path_body p) (rend (path_rooted p) 0 [])
                       (length (rend (path_rooted p) 0 [])))
      in if out = [] then ''.'' else out)"
  by (auto simp: Clean_def path_rooted_def path_body_def Let_def)

lemma base_state:
  obtains u ms where "wf_state (path_rooted (joined root)) u ms"
    "clean_loop (path_rooted (joined root)) (path_body (joined root))
        (rend (path_rooted (joined root)) 0 []) (length (rend (path_rooted (joined root)) 0 []))
      = (rend (path_rooted (joined root)) u (ms @ [playlistImageDir]),
         length (rend (path_rooted (joined root)) u []))"
proof (cases "root = []")
  case True
  then have j: "joined root = playlistImageDir" by (simp add: joined_def)
  have nr: "\<not> path_rooted (joined root)"
    unfolding j by (simp add: path_rooted_def playlistImageDir_def IsPathSeparator_def Separator_def)
  then have b: "path_body (joined root) = playlistImageDir" by (simp add: path_body_def j)
  have wf0: "wf_state False 0 []" by (simp add: wf_state_def)
  have "clean_loop False playlistImageDir (rend False 0 []) (length (rend False 0 [])) =
          (rend False 0 ([] @ [playlistImageDir]), length (rend False 0 []))"
    by (simp only: clean_loop_real[OF real_playlistImageDir] rend_push[OF wf0])
  with wf0 show thesis using nr b by (intro that[of 0 "[]"]) simp_all
next
  case False
  let ?r = "path_rooted (joined root)"
  from False have j: "joined root = root @ Separator # playlistImageDir" by (simp add: joined_def)
  have r: "?r = path_rooted root" using False by (simp add: j path_rooted_def)
  have b: "path_body (joined root) = path_body root @ Separator # playlistImageDir"
    using False by (simp add: j path_body_def path_rooted_def)
  have wf0: "wf_state ?r 0 []" by (simp add: wf_state_def)
  from clean_loop_invariant[OF wf0, of "path_body root"]
  obtain u ms where wf: "wf_state ?r u ms"
    and l: "clean_loop ?r (path_body root) (rend ?r 0 []) (length (rend ?r 0 []))
            = (rend ?r u ms, length (rend ?r u []))"
    by blast
  have "clean_loop ?r playlistImageDir (rend ?r u ms) (length (rend ?r u [])) =
          (rend ?r u (ms @ [playlistImageDir]), length (rend ?r u []))"
    by (simp only: clean_loop_real[OF real_playlistImageDir] rend_push[OF wf])
  then have "clean_loop ?r (path_body (joined root)) (rend ?r 0 []) (length (rend ?r 0 []))
      = (rend ?r u (ms @ [playlistImageDir]), length (rend ?r u []))"
    unfolding b by (subst clean_loop_split) (simp add: l)
  with wf show thesis by (rule that)
qed

lemma rend_snoc_nonempty: "real_element n \<Longrightarrow> rend r u (ms @ [n]) \<noteq> []"
  by (simp add: rend_snoc real_element_def)

text \<open>The state of the loop after the base, and where it continues for the playlist id.\<close>

lemma resolve_state:
  "\<exists>r u ms. wf_state r u ms \<and>
    Clean (Join [root, playlistImageDir]) = rend r u (ms @ [playlistImageDir]) \<and>
    (\<forall>pid. Clean (Join [root, playlistImageDir, pid]) =
       (let out = fst (clean_loop r pid (rend r u (ms @ [playlistImageDir])) (length (rend r u [])))
        in if out = [] then ''.'' else out))"
proof -
  let ?r = "path_rooted (joined root)"
  obtain u ms where wf: "wf_state ?r u ms"
    and l: "clean_loop ?r (path_body (joined root)) (rend ?r 0 []) (length (rend ?r 0 []))
      = (rend ?r u (ms @ [playlistImageDir]), length (rend ?r u []))"
    by (rule base_state)
  have ne: "rend ?r u (ms @ [playlistImageDir]) \<noteq> []"
    by (rule rend_snoc_nonempty[OF real_playlistImageDir])
  have 1: "Clean (Join [root, playlistImageDir]) = rend ?r u (ms @ [playlistImageDir])"
    unfolding Join2 Clean_idem using ne
    by (simp add: Clean_unfold[OF joined_nonempty] l)
  have 2: "Clean (Join [root, playlistImageDir, pid]) =
       (let out = fst (clean_loop ?r pid (rend ?r u (ms @ [playlistImageDir])) (length (rend ?r u [])))
        in if out = [] then ''.'' else out)" for pid
  proof -
    let ?p = "joined root @ Separator # pid"
    have pne: "?p \<noteq> []" by simp
    have pr: "path_rooted ?p = ?r" using joined_nonempty[of root] by (simp add: path_rooted_def)
    have pb: "path_body ?p = path_body (joined root) @ Separator # pid"
      using joined_nonempty[of root] by (simp add: path_body_def path_rooted_def)
    have "clean_loop ?r (path_body ?p) (rend ?r 0 []) (length (rend ?r 0 [])) =
          clean_loop ?r pid (rend ?r u (ms @ [playlistImageDir])) (length (rend ?r u []))"
      unfolding pb by (subst clean_loop_split) (simp add: l)
    then show ?thesis
      unfolding Join3 Clean_idem by (simp add: Clean_unfold[OF pne] pr)
  qed
  from wf 1 2 show ?thesis by blast
qed

lemma alphanumeric_real:
  assumes "pid \<noteq> []" "\<forall>c \<in> set pid. alphanumeric c"
  shows "real_element pid"
proof -
  have s: "\<not> alphanumeric Separator" by (simp add: alphanumeric_def Separator_def)
  have d: "\<not> alphanumeric CHR ''.''" by (simp add: alphanumeric_def)
  from assms(2) s have 1: "Separator \<notin> set pid" by auto
  from assms(2) d have 2: "CHR ''.'' \<notin> set pid" by auto
  from 2 have "pid \<noteq> ''.''" "pid \<noteq> ''..''" by auto
  with assms(1) 1 show ?thesis by (simp add: real_element_def)
qed

lemma resolve_real:
  assumes "real_element pid"
  shows "playlistImagePath root pid = (Clean (Join [root, playlistImageDir]) @ Separator # pid, True)"
proof -
  obtain r u ms where wf: "wf_state r u ms"
    and b: "Clean (Join [root, playlistImageDir]) = rend r u (ms @ [playlistImageDir])"
    and p: "\<forall>pid. Clean (Join [root, playlistImageDir, pid]) =
       (let out = fst (clean_loop r pid (rend r u (ms @ [playlistImageDir])) (length (rend r u [])))
        in if out = [] then ''.'' else out)"
    using resolve_state[of root] by blast
  have wf': "wf_state r u (ms @ [playlistImageDir])" using wf real_playlistImageDir by (simp add: wf_snoc)
  have "clean_loop r pid (rend r u (ms @ [playlistImageDir])) (length (rend r u [])) =
          (rend r u ((ms @ [playlistImageDir]) @ [pid]), length (rend r u []))"
    by (simp only: clean_loop_real[OF assms] rend_push[OF wf'])
  then have "Clean (Join [root, playlistImageDir, pid]) = rend r u ((ms @ [playlistImageDir]) @ [pid])"
    unfolding p[rule_format]
    using rend_snoc_nonempty[OF assms, of r u "ms @ [playlistImageDir]"] by simp
  also have "\<dots> = rend r u (ms @ [playlistImageDir]) @ Separator # pid"
    by (subst rend_snoc) simp
  finally have "Clean (Join [root, playlistImageDir, pid]) =
      Clean (Join [root, playlistImageDir]) @ Separator # pid" by (simp add: b)
  then show ?thesis
    by (simp add: playlistImagePath_def Let_def HasPrefix_def)
qed

lemma split_join:
  "\<forall>e \<in> set es. Separator \<notin> set e \<Longrightarrow> strings_Join es [Separator] = B @ Separator # rest \<Longrightarrow>
   \<exists>es1 es2. es = es1 @ es2 \<and> es1 \<noteq> [] \<and> es2 \<noteq> [] \<and>
     B = strings_Join es1 [Separator] \<and> rest = strings_Join es2 [Separator]"
proof (induction es arbitrary: B)
  case Nil
  then show ?case by simp
next
  case (Cons e es)
  from Cons.prems(1) have e: "Separator \<notin> set e" and es: "\<forall>e \<in> set es. Separator \<notin> set e" by auto
  show ?case
  proof (cases "es = []")
    case True
    with Cons.prems(2) have "e = B @ Separator # rest" by simp
    with e show ?thesis by auto
  next
    case False
    let ?J = "strings_Join es [Separator]"
    from False Cons.prems(2) have eq: "e @ Separator # ?J = B @ Separator # rest"
      by (simp add: strings_Join_Cons)
    then obtain us where us: "(e = B @ us \<and> us @ Separator # ?J = Separator # rest) \<or>
                              (e @ us = B \<and> Separator # ?J = us @ Separator # rest)"
      unfolding append_eq_append_conv2 by blast
    have base_case: ?thesis if "B = e" "rest = ?J"
    proof -
      have "e # es = [e] @ es \<and> [e] \<noteq> [] \<and> es \<noteq> [] \<and> B = strings_Join [e] [Separator] \<and>
            rest = strings_Join es [Separator]" using that False by simp
      then show ?thesis by blast
    qed
    from us show ?thesis
    proof
      assume a: "e = B @ us \<and> us @ Separator # ?J = Separator # rest"
      have "us = []"
      proof (cases us)
        case Nil then show ?thesis .
      next
        case (Cons c us')
        with a have "c = Separator" by simp
        with a Cons e show ?thesis by auto
      qed
      with a show ?thesis by (intro base_case) auto
    next
      assume b: "e @ us = B \<and> Separator # ?J = us @ Separator # rest"
      show ?thesis
      proof (cases us)
        case Nil
        with b show ?thesis by (intro base_case) auto
      next
        case (Cons c us')
        with b have J: "?J = us' @ Separator # rest" and B: "B = e @ Separator # us'" by auto
        from Cons.IH[OF es J] obtain es1 es2 where s: "es = es1 @ es2" "es1 \<noteq> []" "es2 \<noteq> []"
          "us' = strings_Join es1 [Separator]" "rest = strings_Join es2 [Separator]" by blast
        have "e # es = (e # es1) @ es2 \<and> e # es1 \<noteq> [] \<and> es2 \<noteq> [] \<and>
              B = strings_Join (e # es1) [Separator] \<and> rest = strings_Join es2 [Separator]"
          using s B by (simp add: strings_Join_Cons)
        then show ?thesis by blast
      qed
    qed
  qed
qed

lemma dotdots_chars:
  "set es \<subseteq> {''..''} \<Longrightarrow> set (strings_Join es [Separator]) \<subseteq> {CHR ''.'', Separator}"
proof (induction es)
  case Nil
  then show ?case by simp
next
  case (Cons e es)
  then have e: "e = ''..''" and "set es \<subseteq> {''..''}" by auto
  with Cons.IH have "set (strings_Join es [Separator]) \<subseteq> {CHR ''.'', Separator}" by simp
  then show ?case unfolding e by (auto simp: strings_Join_Cons)
qed

lemma rend_Nil_chars: "set (rend r u []) \<subseteq> {CHR ''.'', Separator}"
proof -
  have "set (replicate u ''..'') \<subseteq> {''..''}" by auto
  from dotdots_chars[OF this] show ?thesis by (auto simp: rend_def)
qed

lemma p_in_base: "CHR ''p'' \<in> set (rend r u (ms @ [playlistImageDir]))"
  by (simp add: rend_snoc playlistImageDir_def)

lemma p_not_dots: "CHR ''p'' \<notin> {CHR ''.'', Separator}"
  by (simp add: Separator_def)

lemma real_not_dotdot: "real_element n \<Longrightarrow> n \<noteq> ''..''"
  by (simp add: real_element_def)

lemma resolve_nested:
  assumes "snd (playlistImagePath root pid)"
  shows "\<exists>ms. ms \<noteq> [] \<and> (\<forall>m \<in> set ms. real_element m) \<and>
           fst (playlistImagePath root pid) =
             Clean (Join [root, playlistImageDir]) @ Separator # strings_Join ms [Separator]"
proof -
  let ?p = "Clean (Join [root, playlistImageDir, pid])"
  let ?base = "Clean (Join [root, playlistImageDir])"
  from assms have hp: "HasPrefix ?p (?base @ [Separator])" and f: "fst (playlistImagePath root pid) = ?p"
    by (auto simp: playlistImagePath_def Let_def split: if_splits)
  from hp obtain rest where p: "?p = ?base @ Separator # rest"
    by (auto simp: HasPrefix_iff prefix_def)
  obtain r0 u0 ms0 where b: "?base = rend r0 u0 (ms0 @ [playlistImageDir])"
    using resolve_state[of root] by blast
  have pb: "CHR ''p'' \<in> set ?base" unfolding b by (rule p_in_base)
  have bne: "?base \<noteq> []" using pb by auto
  have "\<exists>ms. ms \<noteq> [] \<and> (\<forall>m \<in> set ms. real_element m) \<and> rest = strings_Join ms [Separator]"
  proof (rule Clean_cases[of "Join [root, playlistImageDir, pid]"])
    assume "?p = ''.''"
    with p bne show ?thesis by (cases ?base) auto
  next
    fix r u ns
    assume wf: "wf_state r u ns" and pr: "?p = rend r u ns"
    let ?es = "replicate u ''..'' @ ns"
    have nosep: "\<forall>e \<in> set ?es. Separator \<notin> set e" using elems_ok[OF wf] by blast
    from wf have rn: "\<forall>n \<in> set ns. real_element n" by (simp add: wf_state_def)
    show ?thesis
    proof (cases r)
      case True
      with wf have u: "u = 0" by (simp add: wf_state_def)
      from bne obtain c B' where cb: "?base = c # B'" by (cases ?base) auto
      from p pr True u cb have "strings_Join ns [Separator] = B' @ Separator # rest"
        by (simp add: rend_def)
      from split_join[OF _ this] nosep u obtain es1 es2 where
        s: "ns = es1 @ es2" "es2 \<noteq> []" "rest = strings_Join es2 [Separator]" by auto
      from s(1) rn have "\<forall>m \<in> set es2. real_element m" by auto
      with s show ?thesis by blast
    next
      case False
      with p pr have "strings_Join ?es [Separator] = ?base @ Separator # rest" by (simp add: rend_def)
      from split_join[OF nosep this] obtain es1 es2 where
        s: "?es = es1 @ es2" "es2 \<noteq> []" "?base = strings_Join es1 [Separator]"
           "rest = strings_Join es2 [Separator]" by blast
      have nodd: "''..'' \<notin> set es2"
      proof
        assume dd: "''..'' \<in> set es2"
        from s(1) obtain us where us: "(replicate u ''..'' = es1 @ us \<and> us @ ns = es2) \<or>
                                       (replicate u ''..'' @ us = es1 \<and> ns = us @ es2)"
          unfolding append_eq_append_conv2 by blast
        then show False
        proof
          assume a: "replicate u ''..'' = es1 @ us \<and> us @ ns = es2"
          then have "set es1 \<subseteq> set (replicate u ''..'')" by (metis set_append Un_upper1)
          then have "set es1 \<subseteq> {''..''}" by auto
          from dotdots_chars[OF this] s(3) pb p_not_dots show False by auto
        next
          assume "replicate u ''..'' @ us = es1 \<and> ns = us @ es2"
          with dd have "''..'' \<in> set ns" by auto
          with rn real_not_dotdot show False by blast
        qed
      qed
      have "\<forall>m \<in> set es2. real_element m"
      proof
        fix m assume m: "m \<in> set es2"
        with s(1) have "m \<in> set ?es" by (metis Un_iff set_append)
        then have "m = ''..'' \<or> m \<in> set ns" by auto
        with m nodd rn show "real_element m" by auto
      qed
      with s show ?thesis by blast
    qed
  qed
  with p f show ?thesis by auto
qed

lemma split_sep_nonempty: "split_sep p \<noteq> []"
  by (induction p) (auto split: list.splits)

lemma hd_split_sep_Nil: "split_sep p = [] # es \<Longrightarrow> p = [] \<or> IsPathSeparator (hd p)"
  by (cases p) (auto split: if_splits list.splits)

lemma dots_only_sep: "dots_only (c # cs) \<Longrightarrow> IsPathSeparator c \<Longrightarrow> dots_only cs"
  by (simp add: dots_only_def)

lemma dots_only_step:
  assumes "dots_only (c # cs)" "\<not> IsPathSeparator c"
  shows "dot_element (c # cs) \<and> dots_only cs \<or>
         dotdot_element (c # cs) \<and> dots_only (drop 2 (c # cs))"
proof -
  obtain e es where sp: "split_sep cs = e # es" using split_sep_nonempty[of cs] by (cases "split_sep cs") auto
  with assms(2) have sc: "split_sep (c # cs) = (c # e) # es" by simp
  with assms(1) have ce: "c # e = ''.'' \<or> c # e = ''..''" and es: "\<forall>x \<in> set es. x = [] \<or> x = ''.'' \<or> x = ''..''"
    by (auto simp: dots_only_def)
  from ce show ?thesis
  proof
    assume "c # e = ''.''"
    then have c: "c = CHR ''.''" and e: "e = []" by auto
    from hd_split_sep_Nil[OF sp[unfolded e]] have "dot_element (c # cs)" using c by (cases cs) auto
    moreover have "dots_only cs" using sp e es by (simp add: dots_only_def)
    ultimately show ?thesis by simp
  next
    assume "c # e = ''..''"
    then have c: "c = CHR ''.''" and e: "e = ''.''" by auto
    from sp e obtain d ds where cs: "cs = d # ds" by (cases cs) auto
    obtain e' es' where sp': "split_sep ds = e' # es'"
      using split_sep_nonempty[of ds] by (cases "split_sep ds") auto
    from sp e cs sp' have d: "d = CHR ''.''" and e': "e' = []" and ee: "es' = es"
      by (auto split: if_splits)
    from hd_split_sep_Nil[OF sp'[unfolded e']] have "dotdot_element (c # cs)"
      using c d cs by (cases ds) auto
    moreover have "dots_only (drop 2 (c # cs))" using cs sp' e' ee es by (simp add: dots_only_def)
    ultimately show ?thesis by simp
  qed
qed

lemma dot_not_dotdot: "dot_element xs \<Longrightarrow> \<not> dotdot_element xs"
  by (cases xs rule: dotdot_element.cases) (auto simp: IsPathSeparator_def Separator_def)

lemma rend_prefix_length: "length (rend r u ns) \<le> length (rend r u (ns @ t))"
proof (induction t rule: rev_induct)
  case Nil
  then show ?case by simp
next
  case (snoc x xs)
  have "length (rend r u (ns @ xs)) \<le> length (rend r u ((ns @ xs) @ [x]))"
    by (subst rend_snoc) simp
  with snoc show ?case by simp
qed

lemma dots_loop:
  "wf_state r u ns \<Longrightarrow> dots_only path \<Longrightarrow>
   \<exists>u' ns'. clean_loop r path (rend r u ns) (length (rend r u [])) = (rend r u' ns', length (rend r u' []))
      \<and> (u' = u \<and> prefix ns' ns \<or> ns' = [])"
proof (induction "length path" arbitrary: path u ns rule: less_induct)
  case less
  show ?case
  proof (cases path)
    case Nil
    then show ?thesis by auto
  next
    case (Cons c cs)
    show ?thesis
    proof (cases "IsPathSeparator c")
      case True
      have "\<exists>u' ns'. clean_loop r cs (rend r u ns) (length (rend r u [])) = (rend r u' ns', length (rend r u' []))
              \<and> (u' = u \<and> prefix ns' ns \<or> ns' = [])"
        by (rule less.hyps) (use Cons less.prems True dots_only_sep in auto)
      then show ?thesis using True Cons by (simp add: clean_loop.simps(2))
    next
      case ns: False
      from dots_only_step[OF less.prems(2)[unfolded Cons] ns]
      have st: "dot_element (c # cs) \<and> dots_only cs \<or>
                dotdot_element (c # cs) \<and> dots_only (drop 2 (c # cs))" .
      show ?thesis
      proof (cases "dot_element (c # cs)")
        case True
        have nd2: "\<not> dotdot_element (c # cs)" using True by (rule dot_not_dotdot)
        with st have d: "dots_only cs" by simp
        have "\<exists>u' ns'. clean_loop r cs (rend r u ns) (length (rend r u [])) = (rend r u' ns', length (rend r u' []))
              \<and> (u' = u \<and> prefix ns' ns \<or> ns' = [])"
          by (rule less.hyps) (use Cons less.prems d in auto)
        then show ?thesis using True ns Cons by (simp add: clean_loop.simps(2))
      next
        case nd: False
        with st have dd: "dotdot_element (c # cs)" and d: "dots_only (drop 2 (c # cs))" by auto
        let ?rest = "drop 2 (c # cs)"
        have rl: "length ?rest < length path" using Cons by simp
        show ?thesis
        proof (cases "length (rend r u []) < length (rend r u ns)")
          case True
          then have "ns \<noteq> []" by auto
          then obtain ms n where nsn: "ns = ms @ [n]" by (cases ns rule: rev_cases) auto
          with less.prems have wfm: "wf_state r u ms" and rn: "real_element n" by (auto simp: wf_snoc)
          have bt: "take (backtrack (rend r u ns) (length (rend r u [])) (length (rend r u ns) - 1)) (rend r u ns)
                    = rend r u ms"
            unfolding nsn by (rule backtrack_rend[OF rn])
          have "\<exists>u' ns'. clean_loop r ?rest (rend r u ms) (length (rend r u [])) = (rend r u' ns', length (rend r u' []))
              \<and> (u' = u \<and> prefix ns' ms \<or> ns' = [])"
            by (rule less.hyps[OF rl wfm d])
          then obtain u' ns' where
            l: "clean_loop r ?rest (rend r u ms) (length (rend r u [])) = (rend r u' ns', length (rend r u' []))"
            and c: "u' = u \<and> prefix ns' ms \<or> ns' = []" by blast
          from c nsn have c': "u' = u \<and> prefix ns' ns \<or> ns' = []" by auto
          have "clean_loop r path (rend r u ns) (length (rend r u [])) = (rend r u' ns', length (rend r u' []))"
            unfolding Cons
            by (subst clean_loop.simps(2)) (simp only: ns nd dd True bt if_True if_False l)
          with c' show ?thesis by blast
        next
          case False
          have nsn: "ns = []" by (rule rend_eq_dd[OF less.prems(1) False])
          show ?thesis
          proof (cases r)
            case rt: True
            have "\<exists>u' ns'. clean_loop r ?rest (rend r u ns) (length (rend r u [])) = (rend r u' ns', length (rend r u' []))
              \<and> (u' = u \<and> prefix ns' ns \<or> ns' = [])"
              by (rule less.hyps[OF rl less.prems(1) d])
            then show ?thesis
              unfolding Cons using False rt
              by (subst clean_loop.simps(2)) (simp add: ns nd dd)
          next
            case nr: False
            then have rF: "r = False" by simp
            have wf': "wf_state r (Suc u) []" using nr by (simp add: wf_state_def)
            have "\<exists>u' ns'. clean_loop r ?rest (rend r (Suc u) []) (length (rend r (Suc u) [])) = (rend r u' ns', length (rend r u' []))
              \<and> (u' = Suc u \<and> prefix ns' [] \<or> ns' = [])"
              by (rule less.hyps[OF rl wf' d])
            then obtain u' where
              l: "clean_loop r ?rest (rend r (Suc u) []) (length (rend r (Suc u) [])) = (rend r u' [], length (rend r u' []))"
              by auto
            have "clean_loop r path (rend r u ns) (length (rend r u [])) = (rend r u' [], length (rend r u' []))"
              using l unfolding Cons nsn rF
              by (subst clean_loop.simps(2))
                 (simp only: ns nd dd Let_def rend_up if_True if_False less_irrefl not_False_eq_True)
            then show ?thesis by blast
          qed
        qed
      qed
    qed
  qed
qed

lemma resolve_dots_only:
  assumes "dots_only pid"
  shows "playlistImagePath root pid = ([], False)"
proof -
  let ?p = "Clean (Join [root, playlistImageDir, pid])"
  let ?base = "Clean (Join [root, playlistImageDir])"
  obtain r u ms where wf: "wf_state r u ms"
    and b: "?base = rend r u (ms @ [playlistImageDir])"
    and p: "\<forall>pid. Clean (Join [root, playlistImageDir, pid]) =
       (let out = fst (clean_loop r pid (rend r u (ms @ [playlistImageDir])) (length (rend r u [])))
        in if out = [] then ''.'' else out)"
    using resolve_state[of root] by blast
  let ?ns = "ms @ [playlistImageDir]"
  have wf': "wf_state r u ?ns" using wf real_playlistImageDir by (simp add: wf_snoc)
  from dots_loop[OF wf' assms] obtain u' ns' where
    l: "clean_loop r pid (rend r u ?ns) (length (rend r u [])) = (rend r u' ns', length (rend r u' []))"
    and c: "u' = u \<and> prefix ns' ?ns \<or> ns' = []" by blast
  have pe: "?p = (if rend r u' ns' = [] then ''.'' else rend r u' ns')"
    unfolding p[rule_format] l by simp
  have pb: "CHR ''p'' \<in> set ?base" unfolding b by (rule p_in_base)
  have bl: "1 \<le> length ?base" using pb by (cases ?base) auto
  have "\<not> prefix (?base @ [Separator]) ?p"
  proof
    assume pre: "prefix (?base @ [Separator]) ?p"
    then have len: "length ?base + 1 \<le> length ?p" using prefix_length_le by fastforce
    from pre have sub: "set ?base \<subseteq> set ?p" by (auto simp: prefix_def)
    from c show False
    proof
      assume a: "u' = u \<and> prefix ns' ?ns"
      then obtain t where "?ns = ns' @ t" by (auto simp: prefix_def)
      with rend_prefix_length[of r u ns' t] a have "length (rend r u' ns') \<le> length ?base"
        unfolding b by simp
      with len bl show False unfolding pe by (auto split: if_splits)
    next
      assume "ns' = []"
      then have "set ?p \<subseteq> {CHR ''.'', Separator}"
        unfolding pe using rend_Nil_chars[of r u'] by auto
      with sub pb p_not_dots show False by blast
    qed
  qed
  then show ?thesis by (simp add: playlistImagePath_def Let_def HasPrefix_iff)
qed

text \<open>The inner loop reads the buffer at or below the index it starts from, which is the
  last index of the buffer: no read is out of range.\<close>

lemma backtrack_le: "backtrack out dotdot w \<le> w"
proof (induction out dotdot w rule: backtrack.induct)
  case (1 out dotdot w)
  show ?case
  proof (cases "dotdot < w \<and> \<not> IsPathSeparator (out ! w)")
    case True
    with 1 have "backtrack out dotdot (w - 1) \<le> w - 1" by blast
    with True show ?thesis by (subst backtrack.simps) simp
  next
    case False
    then show ?thesis by (subst backtrack.simps) auto
  qed
qed

text \<open>The model on the table of the tests of \<^verbatim>\<open>path/filepath\<close>.\<close>

lemma Clean_examples:
  "map Clean [''abc'', ''abc/def'', ''a/b/c'', ''.'', ''..'', ''../..'', ''../../abc'', ''/abc'', ''/'',
     [], ''abc/'', ''abc/def/'', ''a/b/c/'', ''./'', ''../'', ''../../'', ''/abc/'',
     ''abc//def//ghi'', ''abc//'', ''abc/./def'', ''/./abc/def'', ''abc/.'',
     ''abc/def/ghi/../jkl'', ''abc/def/../ghi/../jkl'', ''abc/def/..'', ''abc/def/../..'',
     ''/abc/def/../..'', ''abc/def/../../..'', ''/abc/def/../../..'',
     ''abc/def/../../../ghi/jkl/../../../mno'', ''/../abc'',
     ''abc/./../def'', ''abc//./../def'', ''abc/../../././../def'']
   = [''abc'', ''abc/def'', ''a/b/c'', ''.'', ''..'', ''../..'', ''../../abc'', ''/abc'', ''/'',
     ''.'', ''abc'', ''abc/def'', ''a/b/c'', ''.'', ''..'', ''../..'', ''/abc'',
     ''abc/def/ghi'', ''abc'', ''abc/def'', ''/abc/def'', ''abc'',
     ''abc/def/jkl'', ''abc/jkl'', ''abc'', ''.'',
     ''/'', ''..'', ''/'',
     ''../../mno'', ''/abc'',
     ''def'', ''def'', ''../../def'']"
  by code_simp

section \<open>Properties of the handlers\<close>

lemmas handler_defs = uploadPlaylistImage_def deletePlaylistImage_def repo_Get_def repo_Put_def
  os_MkdirAll_def imaging_Save_def os_Remove_def os_RemoveAll_def log_event_def Let_def

lemmas example_defs = example_cfg_def example_owner_def example_other_def example_image_def
  example_playlist_def example_world_def example_extern_def example_request_def

lemma authorized_simp:
  "authorized pls usr \<Longrightarrow> (OwnerID pls \<noteq> user_ID usr \<and> \<not> IsAdmin usr) = False"
  by (auto simp: authorized_def)

lemma dir_chain_self: "p \<noteq> [] \<Longrightarrow> p \<in> set (dir_chain p)"
  by (simp add: dir_chain_def)

lemma playlistImagePath_nonempty:
  "playlistImagePath root pid = (dir, True) \<Longrightarrow> dir \<noteq> []"
  using Clean_nonempty[of "Join [root, playlistImageDir, pid]"]
  by (auto simp: playlistImagePath_def Let_def split: if_splits)

lemma example_safe: "playlistImagePath ''/data'' ''p1'' = (''/data/playlist-images/p1'', True)"
  by code_simp

lemma example_unsafe: "playlistImagePath ''/data'' ''..'' = ([], False)"
  by code_simp

lemma example_dest:
  "Join [''/data/playlist-images/p1'', ''cover.jpg''] = ''/data/playlist-images/p1/cover.jpg''"
  by code_simp

lemma upload_steps_prefix:
  "prefix (steps w (snd (uploadPlaylistImage cfg x r w)))
     [Fetch, Authorize, Normalize, ResolvePath, SaveImage, CommitPath, Compensate]"
proof (cases "get_error x")
  case True
  then show ?thesis by (simp add: handler_defs steps_def)
next
  case ge: False
  show ?thesis
  proof (cases "playlists w (playlistId r)")
    case None
    with ge show ?thesis by (simp add: handler_defs steps_def)
  next
    case pl: (Some pls)
    show ?thesis
    proof (cases "ctx_user r")
      case None
      with ge pl show ?thesis by (simp add: handler_defs steps_def)
    next
      case us: (Some usr)
      show ?thesis
      proof (cases "authorized pls usr")
        case False
        with ge pl us show ?thesis by (simp add: handler_defs steps_def authorized_def)
      next
        case True
        note au = authorized_simp[OF True]
        show ?thesis
        proof (cases "parse_form_ok r")
          case False
          with ge pl us au show ?thesis by (simp add: handler_defs steps_def)
        next
          case pf: True
          show ?thesis
          proof (cases "form_file r")
            case None
            with ge pl us au pf show ?thesis by (simp add: handler_defs steps_def)
          next
            case ff: (Some bs)
            show ?thesis
            proof (cases "decode x bs")
              case None
              with ge pl us au pf ff show ?thesis by (simp add: handler_defs steps_def)
            next
              case de: (Some img0)
              obtain dir safe where
                ps: "playlistImagePath (DataFolder cfg) (playlistId r) = (dir, safe)"
                by (cases "playlistImagePath (DataFolder cfg) (playlistId r)") auto
              show ?thesis
              proof (cases safe)
                case False
                with ge pl us au pf ff de ps show ?thesis by (simp add: handler_defs steps_def)
              next
                case sf: True
                show ?thesis
                proof (cases "mkdir_ok x")
                  case False
                  with ge pl us au pf ff de ps sf show ?thesis
                    by (simp add: handler_defs steps_def)
                next
                  case mk: True
                  show ?thesis
                  proof (cases "save_ok x")
                    case False
                    with ge pl us au pf ff de ps sf mk show ?thesis
                      by (simp add: handler_defs steps_def)
                  next
                    case sv: True
                    with ge pl us au pf ff de ps sf mk show ?thesis
                      by (simp add: handler_defs steps_def)
                  qed
                qed
              qed
            qed
          qed
        qed
      qed
    qed
  qed
qed

lemma upload_unsafe:
  assumes "\<not> get_error x" "playlists w (playlistId r) = Some pls" "ctx_user r = Some usr"
    "authorized pls usr" "parse_form_ok r" "form_file r = Some bs"
    "\<not> snd (playlistImagePath (DataFolder cfg) (playlistId r))"
  shows "uploadPlaylistImage cfg x r w =
           (case decode x bs of
              None \<Rightarrow> (HttpError ''invalid image file'' StatusBadRequest,
                        w\<lparr>trace := trace w @ [RepoGet (playlistId r), UserFrom, ImageDecode]\<rparr>)
            | Some img0 \<Rightarrow> (HttpError ''invalid playlist id'' StatusBadRequest,
                        w\<lparr>trace := trace w @ [RepoGet (playlistId r), UserFrom, ImageDecode] @
                             (if oversized img0 then [ImageFit] else []) @
                             [PathCheck (playlistId r)]\<rparr>))"
  using assms
  by (cases "playlistImagePath (DataFolder cfg) (playlistId r)")
     (simp add: handler_defs authorized_simp oversized_def split: option.splits)

lemma upload_commit_failure:
  assumes "\<not> get_error x" "playlists w (playlistId r) = Some pls" "ctx_user r = Some usr"
    "authorized pls usr" "parse_form_ok r" "form_file r = Some bs" "decode x bs = Some img0"
    "playlistImagePath (DataFolder cfg) (playlistId r) = (dir, True)"
    "mkdir_ok x" "save_ok x" "\<not> put_ok x"
  shows "uploadPlaylistImage cfg x r w =
           (HttpError ''internal server error'' StatusInternalServerError,
            w\<lparr>trace := trace w @ [RepoGet (playlistId r), UserFrom, ImageDecode] @
                    (if oversized img0 then [ImageFit] else []) @
                    [PathCheck (playlistId r), MkdirAll dir, Save (Join [dir, ''cover.jpg'']),
                     RepoPut (pls\<lparr>ImagePath := Join [dir, ''cover.jpg'']\<rparr>),
                     OsRemove (Join [dir, ''cover.jpg''])],
              dirs := dirs w \<union> set (dir_chain dir),
              files :=
                (if remove_ok x then (files w)(Join [dir, ''cover.jpg''] := None)
                 else (files w)(Join [dir, ''cover.jpg''] \<mapsto>
                   (if oversized img0 then fit x img0 maxImageDimension maxImageDimension else img0,
                    CoverJpegQuality cfg)))\<rparr>)"
  using assms by (simp add: handler_defs authorized_simp oversized_def)

lemma delete_with_image:
  assumes "\<not> get_error x" "playlists w (playlistId r) = Some pls"
    "ctx_user r = Some usr" "authorized pls usr" "ImagePath pls \<noteq> []"
    "playlistImagePath (DataFolder cfg) (playlistId r) = (dir, safe)"
  shows "deletePlaylistImage cfg x r w =
           (if put_ok x \<and> marshal_ok x then JsonID (playlistId r)
            else HttpError ''internal server error'' StatusInternalServerError,
            (if safe then snd (os_RemoveAll x dir
                 (w\<lparr>trace := trace w @ [RepoGet (playlistId r), UserFrom, PathCheck (playlistId r)]\<rparr>))
             else w\<lparr>trace := trace w @ [RepoGet (playlistId r), UserFrom, PathCheck (playlistId r)]\<rparr>)
            \<lparr>trace := trace w @ [RepoGet (playlistId r), UserFrom, PathCheck (playlistId r)] @
                 (if safe then [OsRemoveAll dir] else []) @ [RepoPut (pls\<lparr>ImagePath := []\<rparr>)],
             playlists := (if put_ok x then (playlists w)(pls_ID pls \<mapsto> pls\<lparr>ImagePath := []\<rparr>)
                           else playlists w)\<rparr>)"
  using assms by (simp add: handler_defs authorized_simp)

lemma delete_without_image:
  assumes "\<not> get_error x" "playlists w (playlistId r) = Some pls"
    "ctx_user r = Some usr" "authorized pls usr" "ImagePath pls = []"
  shows "deletePlaylistImage cfg x r w =
           (HttpError ''playlist has no custom image'' StatusNotFound,
            w\<lparr>trace := trace w @ [RepoGet (playlistId r), UserFrom]\<rparr>)"
  using assms by (simp add: handler_defs authorized_simp)

lemma example_base: "Clean (Join [''/data'', playlistImageDir]) = ''/data/playlist-images''"
  by code_simp

lemma example_sibling:
  "Clean (Join [''/data'', playlistImageDir, ''../playlist-images2'']) = ''/data/playlist-images2''"
  by code_simp

section \<open>The claims\<close>

text \<open>
  Claim C1 says that \<^verbatim>\<open>playlistImagePath\<close> returns \<^verbatim>\<open>ok=false\<close> for every playlist
  id that contains the substring \<^verbatim>\<open>..\<close>, or begins with a separator, or contains a
  separator, whatever the storage root. The code does not look at the id: it cleans the
  joined path and compares prefixes. Under the root \<^verbatim>\<open>/data\<close> it accepts the id
  \<^verbatim>\<open>a..b\<close> (which contains \<^verbatim>\<open>..\<close>), the id \<^verbatim>\<open>/abc\<close> (which begins with a separator), the
  id \<^verbatim>\<open>a/b\<close> (which contains one) and the id \<^verbatim>\<open>../playlist-images/x\<close> (which has a
  \<^verbatim>\<open>..\<close> element), because each of these cleans to a path below the base.
\<close>

theorem playlistImagePath_accepts_dotdot_substring:
  "''a..b'' = ''a'' @ ''..'' @ ''b'' \<and>
   playlistImagePath ''/data'' ''a..b'' = (''/data/playlist-images/a..b'', True) \<and>
   hd ''/abc'' = Separator \<and>
   playlistImagePath ''/data'' ''/abc'' = (''/data/playlist-images/abc'', True) \<and>
   Separator \<in> set ''a/b'' \<and>
   playlistImagePath ''/data'' ''a/b'' = (''/data/playlist-images/a/b'', True) \<and>
   playlistImagePath ''/data'' ''../playlist-images/x'' = (''/data/playlist-images/x'', True)"
  by code_simp

text \<open>
  Claim C1, amended: \<^verbatim>\<open>playlistImagePath\<close> returns \<^verbatim>\<open>ok=false\<close> exactly for the playlist
  ids that escape the base after canonicalization, for every storage root: the result is
  \<^verbatim>\<open>ok=true\<close> if and only if the cleaned joined path is the cleaned base, a separator,
  and one or more real path elements joined by separators. In particular every id whose
  elements are all empty, \<^verbatim>\<open>.\<close> or \<^verbatim>\<open>..\<close> (the empty id, \<^verbatim>\<open>.\<close>, \<^verbatim>\<open>..\<close>,
  \<^verbatim>\<open>../..\<close>, \<^verbatim>\<open>/\<close>) is rejected with the empty path, for every storage root.
\<close>

theorem playlistImagePath_rejects_escaping:
  "(dots_only pid \<longrightarrow> playlistImagePath root pid = ([], False)) \<and>
   (snd (playlistImagePath root pid) \<longleftrightarrow>
      (\<exists>ms. ms \<noteq> [] \<and> (\<forall>m \<in> set ms. real_element m) \<and>
         Clean (Join [root, playlistImageDir, pid]) =
           Clean (Join [root, playlistImageDir]) @ Separator # strings_Join ms [Separator]))"
proof (intro conjI impI iffI)
  assume "dots_only pid"
  then show "playlistImagePath root pid = ([], False)" by (rule resolve_dots_only)
next
  assume ok: "snd (playlistImagePath root pid)"
  then have "fst (playlistImagePath root pid) = Clean (Join [root, playlistImageDir, pid])"
    by (auto simp: playlistImagePath_def Let_def split: if_splits)
  with resolve_nested[OF ok]
  show "\<exists>ms. ms \<noteq> [] \<and> (\<forall>m \<in> set ms. real_element m) \<and>
         Clean (Join [root, playlistImageDir, pid]) =
           Clean (Join [root, playlistImageDir]) @ Separator # strings_Join ms [Separator]"
    by simp
next
  assume "\<exists>ms. ms \<noteq> [] \<and> (\<forall>m \<in> set ms. real_element m) \<and>
         Clean (Join [root, playlistImageDir, pid]) =
           Clean (Join [root, playlistImageDir]) @ Separator # strings_Join ms [Separator]"
  then show "snd (playlistImagePath root pid)"
    by (auto simp: playlistImagePath_def Let_def HasPrefix_def)
qed

text \<open>The theorem at a concrete input.\<close>

theorem playlistImagePath_rejects_escaping_witness:
  "dots_only ''../..'' \<and> playlistImagePath ''/data'' ''../..'' = ([], False) \<and>
   \<not> (\<exists>ms. ms \<noteq> [] \<and> (\<forall>m \<in> set ms. real_element m) \<and>
         Clean (Join [''/data'', playlistImageDir, ''../..'']) =
           Clean (Join [''/data'', playlistImageDir]) @ Separator # strings_Join ms [Separator])"
proof -
  have d: "dots_only ''../..''"
    by (simp add: dots_only_def IsPathSeparator_def Separator_def)
  note t = playlistImagePath_rejects_escaping[of "''../..''" "''/data''"]
  from t d have 1: "playlistImagePath ''/data'' ''../..'' = ([], False)" by blast
  from t have "snd (playlistImagePath ''/data'' ''../..'') =
      (\<exists>ms. ms \<noteq> [] \<and> (\<forall>m \<in> set ms. real_element m) \<and>
         Clean (Join [''/data'', playlistImageDir, ''../..'']) =
           Clean (Join [''/data'', playlistImageDir]) @ Separator # strings_Join ms [Separator])"
    by (rule conjunct2)
  then have 2: "\<not> (\<exists>ms. ms \<noteq> [] \<and> (\<forall>m \<in> set ms. real_element m) \<and>
         Clean (Join [''/data'', playlistImageDir, ''../..'']) =
           Clean (Join [''/data'', playlistImageDir]) @ Separator # strings_Join ms [Separator])"
    unfolding 1 by simp
  from d 1 2 show ?thesis by (intro conjI)
qed

text \<open>
  Claim C2: \<^verbatim>\<open>playlistImagePath\<close> is a function of the storage root and the playlist id
  alone, and it returns for every input: the model is a total function, the two loops of
  \<^verbatim>\<open>Clean\<close> come with their termination proofs, and no read of the model is out of
  range. Whenever it returns \<^verbatim>\<open>ok=true\<close>, the directory is the cleaned
  \<^verbatim>\<open>Join(DataFolder, playlistImageDir)\<close>, a separator, and one or more real path elements
  joined by separators (no empty, \<^verbatim>\<open>.\<close> or \<^verbatim>\<open>..\<close> element), so it lies strictly below
  the base; when it returns \<^verbatim>\<open>ok=false\<close> the path is empty. A path that continues the
  base with a character other than the separator (\<^verbatim>\<open>.../playlist-images2\<close> for the base
  \<^verbatim>\<open>.../playlist-images\<close>) is never accepted. Every playlist id that is a non-empty string
  of ASCII letters and digits is accepted, with the directory base, separator, id.
\<close>

theorem playlistImagePath_strictly_nested:
  "(snd (playlistImagePath root pid) \<longrightarrow>
      (\<exists>ms. ms \<noteq> [] \<and> (\<forall>m \<in> set ms. real_element m) \<and>
         fst (playlistImagePath root pid) =
           Clean (Join [root, playlistImageDir]) @ Separator # strings_Join ms [Separator])) \<and>
   (\<not> snd (playlistImagePath root pid) \<longrightarrow> fst (playlistImagePath root pid) = []) \<and>
   (ch \<noteq> Separator \<and>
    Clean (Join [root, playlistImageDir, pid]) = Clean (Join [root, playlistImageDir]) @ ch # rest \<longrightarrow>
      \<not> snd (playlistImagePath root pid)) \<and>
   (pid \<noteq> [] \<and> (\<forall>c \<in> set pid. alphanumeric c) \<longrightarrow>
      playlistImagePath root pid = (Clean (Join [root, playlistImageDir]) @ Separator # pid, True))"
proof (intro conjI impI)
  assume "snd (playlistImagePath root pid)"
  then show "\<exists>ms. ms \<noteq> [] \<and> (\<forall>m \<in> set ms. real_element m) \<and>
         fst (playlistImagePath root pid) =
           Clean (Join [root, playlistImageDir]) @ Separator # strings_Join ms [Separator]"
    by (rule resolve_nested)
next
  assume "\<not> snd (playlistImagePath root pid)"
  then show "fst (playlistImagePath root pid) = []"
    by (auto simp: playlistImagePath_def Let_def split: if_splits)
next
  assume "ch \<noteq> Separator \<and>
    Clean (Join [root, playlistImageDir, pid]) = Clean (Join [root, playlistImageDir]) @ ch # rest"
  then show "\<not> snd (playlistImagePath root pid)"
    by (auto simp: playlistImagePath_def Let_def HasPrefix_def)
next
  assume "pid \<noteq> [] \<and> (\<forall>c \<in> set pid. alphanumeric c)"
  then have "real_element pid" by (simp add: alphanumeric_real)
  then show "playlistImagePath root pid = (Clean (Join [root, playlistImageDir]) @ Separator # pid, True)"
    by (rule resolve_real)
qed

text \<open>The theorem at a concrete input.\<close>

theorem playlistImagePath_strictly_nested_witness:
  "list_all alphanumeric ''p1'' \<and>
   playlistImagePath ''/data'' ''p1'' = (''/data/playlist-images/p1'', True) \<and>
   Clean (Join [''/data'', playlistImageDir, ''../playlist-images2'']) =
     Clean (Join [''/data'', playlistImageDir]) @ ''2'' \<and>
   \<not> snd (playlistImagePath ''/data'' ''../playlist-images2'')"
proof -
  have a: "''p1'' \<noteq> [] \<and> (\<forall>c \<in> set ''p1''. alphanumeric c)" by (simp add: alphanumeric_def)
  have s: "CHR ''2'' \<noteq> Separator \<and>
    Clean (Join [''/data'', playlistImageDir, ''../playlist-images2'']) =
      Clean (Join [''/data'', playlistImageDir]) @ CHR ''2'' # []"
    by (simp add: example_base example_sibling Separator_def)
  from playlistImagePath_strictly_nested[of "''/data''" "''p1''" "CHR ''2''" "[]"] a
  have 1: "playlistImagePath ''/data'' ''p1'' = (''/data/playlist-images/p1'', True)"
    by (simp add: example_base Separator_def)
  from playlistImagePath_strictly_nested[of "''/data''" "''../playlist-images2''" "CHR ''2''" "[]"] s
  have 2: "\<not> snd (playlistImagePath ''/data'' ''../playlist-images2'')" by blast
  from a 1 s 2 show ?thesis by (simp add: list_all_iff)
qed

text \<open>
  Claim C3 says that Upload resolves the path before it normalizes the image, so that an
  upload whose playlist id resolves to an unsafe path fails with \<^verbatim>\<open>InvalidIdentifier\<close>
  before any image decoding, whether the bytes are an image or not. The handler calls
  \<^verbatim>\<open>image.Decode\<close> (and \<^verbatim>\<open>imaging.Fit\<close>) first and \<^verbatim>\<open>playlistImagePath\<close> after. For
  the playlist id \<^verbatim>\<open>..\<close>, which is unsafe under \<^verbatim>\<open>/data\<close>: bytes that do not decode give
  400 \<^verbatim>\<open>invalid image file\<close> and not \<^verbatim>\<open>invalid playlist id\<close>; bytes that decode give
  400 \<^verbatim>\<open>invalid playlist id\<close> only after the image was decoded and resized.
\<close>

theorem upload_unsafe_id_decodes_first:
  "\<not> snd (playlistImagePath (DataFolder example_cfg) ''..'') \<and>
   uploadPlaylistImage example_cfg (example_extern True True)
       (example_request ''..'' example_owner ''not an image'') (example_world ''..'' []) =
     (HttpError ''invalid image file'' StatusBadRequest,
      (example_world ''..'' [])\<lparr>trace := [RepoGet ''..'', UserFrom, ImageDecode]\<rparr>) \<and>
   uploadPlaylistImage example_cfg (example_extern True True)
       (example_request ''..'' example_owner ''PNG'') (example_world ''..'' []) =
     (HttpError ''invalid playlist id'' StatusBadRequest,
      (example_world ''..'' [])
        \<lparr>trace := [RepoGet ''..'', UserFrom, ImageDecode, ImageFit, PathCheck ''..'']\<rparr>)"
proof -
  have u: "\<not> snd (playlistImagePath (DataFolder example_cfg) ''..'')"
    by (simp add: example_cfg_def example_unsafe)
  have a: "authorized (example_playlist ''..'' []) example_owner"
    by (simp add: authorized_def example_defs)
  have 1: "uploadPlaylistImage example_cfg (example_extern True True)
       (example_request ''..'' example_owner ''not an image'') (example_world ''..'' []) =
     (HttpError ''invalid image file'' StatusBadRequest,
      (example_world ''..'' [])\<lparr>trace := [RepoGet ''..'', UserFrom, ImageDecode]\<rparr>)"
    using upload_unsafe[of "example_extern True True" "example_world ''..'' []"
        "example_request ''..'' example_owner ''not an image''" "example_playlist ''..'' []"
        example_owner "''not an image''" example_cfg] a u
    by (simp add: example_defs)
  have 2: "uploadPlaylistImage example_cfg (example_extern True True)
       (example_request ''..'' example_owner ''PNG'') (example_world ''..'' []) =
     (HttpError ''invalid playlist id'' StatusBadRequest,
      (example_world ''..'' [])
        \<lparr>trace := [RepoGet ''..'', UserFrom, ImageDecode, ImageFit, PathCheck ''..'']\<rparr>)"
    using upload_unsafe[of "example_extern True True" "example_world ''..'' []"
        "example_request ''..'' example_owner ''PNG''" "example_playlist ''..'' []"
        example_owner "''PNG''" example_cfg] a u
    by (simp add: example_defs oversized_def maxImageDimension_def)
  from u 1 2 show ?thesis by (intro conjI)
qed

text \<open>
  Claim C3, amended: the steps of every Upload are, in this order, an initial segment of
  Fetch playlist, Authorize, Normalize (decode, then resize), ResolvePath, Save, CommitPath,
  and the compensating delete: the path is resolved after the image is normalized.
  Consequently, for every upload by an authorized caller with a parsed form and an image
  file whose playlist id resolves to an unsafe path, the image decoding is attempted first:
  when the bytes do not decode the operation fails with \<^verbatim>\<open>InvalidImage\<close> (400
  \<^verbatim>\<open>invalid image file\<close>), and when they decode it fails with \<^verbatim>\<open>InvalidIdentifier\<close> (400
  \<^verbatim>\<open>invalid playlist id\<close>) after the decoding and the resize; in both cases nothing is
  written to the file system or to the repository.
\<close>

theorem upload_resolves_path_after_decoding:
  "prefix (steps w (snd (uploadPlaylistImage cfg x r w)))
     [Fetch, Authorize, Normalize, ResolvePath, SaveImage, CommitPath, Compensate] \<and>
   (\<not> get_error x \<and> playlists w (playlistId r) = Some pls \<and> ctx_user r = Some usr \<and>
    authorized pls usr \<and> parse_form_ok r \<and> form_file r = Some bs \<and>
    \<not> snd (playlistImagePath (DataFolder cfg) (playlistId r)) \<longrightarrow>
    uploadPlaylistImage cfg x r w =
      (case decode x bs of
         None \<Rightarrow> (HttpError ''invalid image file'' StatusBadRequest,
                   w\<lparr>trace := trace w @ [RepoGet (playlistId r), UserFrom, ImageDecode]\<rparr>)
       | Some img0 \<Rightarrow> (HttpError ''invalid playlist id'' StatusBadRequest,
                   w\<lparr>trace := trace w @ [RepoGet (playlistId r), UserFrom, ImageDecode] @
                        (if oversized img0 then [ImageFit] else []) @
                        [PathCheck (playlistId r)]\<rparr>)))"
  using upload_steps_prefix[of w cfg x r] upload_unsafe[of x w r pls usr bs cfg] by blast

text \<open>The theorem at a concrete input.\<close>

theorem upload_resolves_path_after_decoding_witness:
  "authorized (example_playlist ''..'' []) example_owner \<and>
   \<not> snd (playlistImagePath (DataFolder example_cfg) ''..'') \<and>
   uploadPlaylistImage example_cfg (example_extern True True)
       (example_request ''..'' example_owner ''PNG'') (example_world ''..'' []) =
     (HttpError ''invalid playlist id'' StatusBadRequest,
      (example_world ''..'' [])
        \<lparr>trace := [RepoGet ''..'', UserFrom, ImageDecode, ImageFit, PathCheck ''..'']\<rparr>) \<and>
   steps (example_world ''..'' [])
     (snd (uploadPlaylistImage example_cfg (example_extern True True)
       (example_request ''..'' example_owner ''PNG'') (example_world ''..'' []))) =
     [Fetch, Authorize, Normalize, ResolvePath]"
proof -
  have u: "\<not> snd (playlistImagePath (DataFolder example_cfg) ''..'')"
    by (simp add: example_cfg_def example_unsafe)
  have a: "authorized (example_playlist ''..'' []) example_owner"
    by (simp add: authorized_def example_defs)
  have 1: "uploadPlaylistImage example_cfg (example_extern True True)
       (example_request ''..'' example_owner ''PNG'') (example_world ''..'' []) =
     (HttpError ''invalid playlist id'' StatusBadRequest,
      (example_world ''..'' [])
        \<lparr>trace := [RepoGet ''..'', UserFrom, ImageDecode, ImageFit, PathCheck ''..'']\<rparr>)"
    using upload_resolves_path_after_decoding[of "example_world ''..'' []" example_cfg
        "example_extern True True" "example_request ''..'' example_owner ''PNG''"
        "example_playlist ''..'' []" example_owner "''PNG''"] a u
    by (simp add: example_defs oversized_def maxImageDimension_def)
  have 2: "steps (example_world ''..'' [])
     (snd (uploadPlaylistImage example_cfg (example_extern True True)
       (example_request ''..'' example_owner ''PNG'') (example_world ''..'' []))) =
     [Fetch, Authorize, Normalize, ResolvePath]"
    unfolding 1 by (simp add: steps_def example_world_def)
  from a u 1 2 show ?thesis by (intro conjI)
qed

text \<open>
  Claim C4: for every Upload in which Save succeeds and the repository \<^verbatim>\<open>Put\<close> that
  follows fails, the compensating delete of the file just written is invoked
  (\<^verbatim>\<open>os.Remove\<close> of \<^verbatim>\<open>cover.jpg\<close>, the last call of the run, after the failed \<^verbatim>\<open>Put\<close>),
  the operation fails with \<^verbatim>\<open>PersistenceError\<close> (500 \<^verbatim>\<open>internal server error\<close>), and the
  playlist records are the ones before the upload, the old image path included.
\<close>

theorem upload_commit_failure_compensates:
  assumes "\<not> get_error x" "playlists w (playlistId r) = Some pls" "ctx_user r = Some usr"
    "authorized pls usr" "parse_form_ok r" "form_file r = Some bs" "decode x bs = Some img0"
    "playlistImagePath (DataFolder cfg) (playlistId r) = (dir, True)"
    "mkdir_ok x" "save_ok x" "\<not> put_ok x"
  shows "fst (uploadPlaylistImage cfg x r w) =
           HttpError ''internal server error'' StatusInternalServerError \<and>
         playlists (snd (uploadPlaylistImage cfg x r w)) = playlists w \<and>
         trace (snd (uploadPlaylistImage cfg x r w)) =
           trace w @ [RepoGet (playlistId r), UserFrom, ImageDecode] @
             (if oversized img0 then [ImageFit] else []) @
             [PathCheck (playlistId r), MkdirAll dir, Save (Join [dir, ''cover.jpg'']),
              RepoPut (pls\<lparr>ImagePath := Join [dir, ''cover.jpg'']\<rparr>),
              OsRemove (Join [dir, ''cover.jpg''])]"
  unfolding upload_commit_failure[OF assms] by simp

text \<open>The theorem at a concrete input.\<close>

theorem upload_commit_failure_compensates_witness:
  "authorized (example_playlist ''p1'' []) example_owner \<and>
   playlistImagePath (DataFolder example_cfg) ''p1'' = (''/data/playlist-images/p1'', True) \<and>
   fst (uploadPlaylistImage example_cfg (example_extern False True)
          (example_request ''p1'' example_owner ''PNG'') (example_world ''p1'' [])) =
     HttpError ''internal server error'' StatusInternalServerError \<and>
   playlists (snd (uploadPlaylistImage example_cfg (example_extern False True)
          (example_request ''p1'' example_owner ''PNG'') (example_world ''p1'' []))) =
     [''p1'' \<mapsto> example_playlist ''p1'' []] \<and>
   trace (snd (uploadPlaylistImage example_cfg (example_extern False True)
          (example_request ''p1'' example_owner ''PNG'') (example_world ''p1'' []))) =
     [RepoGet ''p1'', UserFrom, ImageDecode, ImageFit, PathCheck ''p1'',
      MkdirAll ''/data/playlist-images/p1'', Save ''/data/playlist-images/p1/cover.jpg'',
      RepoPut (example_playlist ''p1'' ''/data/playlist-images/p1/cover.jpg''),
      OsRemove ''/data/playlist-images/p1/cover.jpg'']"
proof -
  have a: "authorized (example_playlist ''p1'' []) example_owner"
    by (simp add: authorized_def example_defs)
  have s: "playlistImagePath (DataFolder example_cfg) ''p1'' = (''/data/playlist-images/p1'', True)"
    by (simp add: example_cfg_def example_safe)
  show ?thesis
    using upload_commit_failure_compensates[of "example_extern False True" "example_world ''p1'' []"
        "example_request ''p1'' example_owner ''PNG''" "example_playlist ''p1'' []"
        example_owner "''PNG''" example_image example_cfg "''/data/playlist-images/p1''"] a s
    by (simp add: example_defs example_dest oversized_def maxImageDimension_def)
qed

text \<open>
  Claim C5 says that the compensation after a failed commit removes the directory of the
  playlist, as Remove does. The handler calls \<^verbatim>\<open>os.Remove\<close> on the file \<^verbatim>\<open>cover.jpg\<close>
  only. In the scenario, with the directory absent before the upload and a repository write
  that fails: the last call is \<^verbatim>\<open>os.Remove\<close> of the file, and the directory
  \<^verbatim>\<open>/data/playlist-images/p1\<close> that \<^verbatim>\<open>MkdirAll\<close> created is still there.
\<close>

theorem upload_compensation_keeps_directory:
  "fst (uploadPlaylistImage example_cfg (example_extern False True)
          (example_request ''p1'' example_owner ''PNG'') (example_world ''p1'' [])) =
     HttpError ''internal server error'' StatusInternalServerError \<and>
   last (trace (snd (uploadPlaylistImage example_cfg (example_extern False True)
          (example_request ''p1'' example_owner ''PNG'') (example_world ''p1'' [])))) =
     OsRemove ''/data/playlist-images/p1/cover.jpg'' \<and>
   ''/data/playlist-images/p1'' \<in>
     dirs (snd (uploadPlaylistImage example_cfg (example_extern False True)
          (example_request ''p1'' example_owner ''PNG'') (example_world ''p1'' []))) \<and>
   ''/data/playlist-images/p1'' \<notin> dirs (example_world ''p1'' [])"
proof -
  have a: "authorized (example_playlist ''p1'' []) example_owner"
    by (simp add: authorized_def example_defs)
  have s: "playlistImagePath (DataFolder example_cfg) ''p1'' = (''/data/playlist-images/p1'', True)"
    by (simp add: example_cfg_def example_safe)
  have d: "''/data/playlist-images/p1'' \<in> set (dir_chain ''/data/playlist-images/p1'')"
    by (rule dir_chain_self) simp
  show ?thesis
    using upload_commit_failure[of "example_extern False True" "example_world ''p1'' []"
        "example_request ''p1'' example_owner ''PNG''" "example_playlist ''p1'' []"
        example_owner "''PNG''" example_image example_cfg "''/data/playlist-images/p1''"] a s d
    by (simp add: example_defs example_dest oversized_def maxImageDimension_def)
qed

text \<open>
  Claim C5, amended: when the upload compensation runs after a failed commit, it removes
  the file \<^verbatim>\<open>cover.jpg\<close> just written, and only that file: the directory of the playlist
  still exists afterwards, the directories are those before the upload and those
  \<^verbatim>\<open>MkdirAll\<close> created, \<^verbatim>\<open>os.RemoveAll\<close> is not called, and the file is gone when
  \<^verbatim>\<open>os.Remove\<close> succeeds (when it fails, the error is dropped and the file stays).
\<close>

theorem upload_compensation_removes_file_only:
  assumes "\<not> get_error x" "playlists w (playlistId r) = Some pls" "ctx_user r = Some usr"
    "authorized pls usr" "parse_form_ok r" "form_file r = Some bs" "decode x bs = Some img0"
    "playlistImagePath (DataFolder cfg) (playlistId r) = (dir, True)"
    "mkdir_ok x" "save_ok x" "\<not> put_ok x"
  shows "dir \<in> dirs (snd (uploadPlaylistImage cfg x r w)) \<and>
         dirs (snd (uploadPlaylistImage cfg x r w)) = dirs w \<union> set (dir_chain dir) \<and>
         files (snd (uploadPlaylistImage cfg x r w)) =
           (if remove_ok x then (files w)(Join [dir, ''cover.jpg''] := None)
            else (files w)(Join [dir, ''cover.jpg''] \<mapsto>
                   (if oversized img0 then fit x img0 maxImageDimension maxImageDimension else img0,
                    CoverJpegQuality cfg))) \<and>
         OsRemoveAll dir \<notin> set (drop (length (trace w)) (trace (snd (uploadPlaylistImage cfg x r w))))"
  unfolding upload_commit_failure[OF assms]
  using dir_chain_self[OF playlistImagePath_nonempty[OF assms(8)]] by simp

text \<open>The theorem at a concrete input.\<close>

theorem upload_compensation_removes_file_only_witness:
  "authorized (example_playlist ''p1'' []) example_owner \<and>
   playlistImagePath (DataFolder example_cfg) ''p1'' = (''/data/playlist-images/p1'', True) \<and>
   ''/data/playlist-images/p1'' \<in>
     dirs (snd (uploadPlaylistImage example_cfg (example_extern False True)
          (example_request ''p1'' example_owner ''PNG'') (example_world ''p1'' []))) \<and>
   files (snd (uploadPlaylistImage example_cfg (example_extern False True)
          (example_request ''p1'' example_owner ''PNG'') (example_world ''p1'' []))) = Map.empty"
proof -
  have a: "authorized (example_playlist ''p1'' []) example_owner"
    by (simp add: authorized_def example_defs)
  have s: "playlistImagePath (DataFolder example_cfg) ''p1'' = (''/data/playlist-images/p1'', True)"
    by (simp add: example_cfg_def example_safe)
  have d: "''/data/playlist-images/p1'' \<in> set (dir_chain ''/data/playlist-images/p1'')"
    by (rule dir_chain_self) simp
  show ?thesis
    using upload_compensation_removes_file_only[of "example_extern False True"
        "example_world ''p1'' []" "example_request ''p1'' example_owner ''PNG''"
        "example_playlist ''p1'' []" example_owner "''PNG''" example_image example_cfg
        "''/data/playlist-images/p1''"] a s d
    by (simp add: example_defs example_dest)
qed

text \<open>
  Claim C6: for every Remove on a playlist with a non-empty image path, a failure of
  \<^verbatim>\<open>os.RemoveAll\<close> does not abort the operation. The \<^verbatim>\<open>Put\<close> of the playlist with the
  empty image path is still attempted, after the failed removal; the file system is
  unchanged; when the \<^verbatim>\<open>Put\<close> succeeds the repository holds the playlist with the empty
  image path, and the operation succeeds (when the response can be marshalled).
\<close>

theorem delete_continues_after_failed_removal:
  assumes "\<not> get_error x" "playlists w (playlistId r) = Some pls" "pls_ID pls = playlistId r"
    "ctx_user r = Some usr" "authorized pls usr" "ImagePath pls \<noteq> []"
    "playlistImagePath (DataFolder cfg) (playlistId r) = (dir, True)"
    "\<not> removeall_ok x"
  shows "trace (snd (deletePlaylistImage cfg x r w)) =
           trace w @ [RepoGet (playlistId r), UserFrom, PathCheck (playlistId r), OsRemoveAll dir,
                      RepoPut (pls\<lparr>ImagePath := []\<rparr>)] \<and>
         dirs (snd (deletePlaylistImage cfg x r w)) = dirs w \<and>
         files (snd (deletePlaylistImage cfg x r w)) = files w \<and>
         playlists (snd (deletePlaylistImage cfg x r w)) =
           (if put_ok x then (playlists w)(playlistId r \<mapsto> pls\<lparr>ImagePath := []\<rparr>)
            else playlists w) \<and>
         fst (deletePlaylistImage cfg x r w) =
           (if put_ok x \<and> marshal_ok x then JsonID (playlistId r)
            else HttpError ''internal server error'' StatusInternalServerError)"
  unfolding delete_with_image[OF assms(1,2,4,5,6,7)]
  using assms(3,8) by (simp add: os_RemoveAll_def log_event_def)

text \<open>The theorem at a concrete input.\<close>

theorem delete_continues_after_failed_removal_witness:
  "authorized (example_playlist ''p1'' ''/data/playlist-images/p1/cover.jpg'') example_owner \<and>
   playlistImagePath (DataFolder example_cfg) ''p1'' = (''/data/playlist-images/p1'', True) \<and>
   trace (snd (deletePlaylistImage example_cfg (example_extern True False)
          (example_request ''p1'' example_owner [])
          (example_world ''p1'' ''/data/playlist-images/p1/cover.jpg''))) =
     [RepoGet ''p1'', UserFrom, PathCheck ''p1'', OsRemoveAll ''/data/playlist-images/p1'',
      RepoPut (example_playlist ''p1'' [])] \<and>
   playlists (snd (deletePlaylistImage example_cfg (example_extern True False)
          (example_request ''p1'' example_owner [])
          (example_world ''p1'' ''/data/playlist-images/p1/cover.jpg''))) =
     [''p1'' \<mapsto> example_playlist ''p1'' []] \<and>
   fst (deletePlaylistImage example_cfg (example_extern True False)
          (example_request ''p1'' example_owner [])
          (example_world ''p1'' ''/data/playlist-images/p1/cover.jpg'')) = JsonID ''p1''"
proof -
  have a: "authorized (example_playlist ''p1'' ''/data/playlist-images/p1/cover.jpg'') example_owner"
    by (simp add: authorized_def example_defs)
  have s: "playlistImagePath (DataFolder example_cfg) ''p1'' = (''/data/playlist-images/p1'', True)"
    by (simp add: example_cfg_def example_safe)
  show ?thesis
    using delete_continues_after_failed_removal[of "example_extern True False"
        "example_world ''p1'' ''/data/playlist-images/p1/cover.jpg''"
        "example_request ''p1'' example_owner []"
        "example_playlist ''p1'' ''/data/playlist-images/p1/cover.jpg''"
        example_owner example_cfg "''/data/playlist-images/p1''"] a s
    by (simp add: example_defs)
qed

text \<open>
  Claim C7 is about the pixel bounds \<^verbatim>\<open>imaging.Fit\<close> computes (in floating point) and
  about the bytes \<^verbatim>\<open>imaging.Save\<close> encodes; both are libraries outside this source. What
  the handler itself decides is when it resizes: a successful upload stores the decoded
  image as it is when neither dimension exceeds \<^verbatim>\<open>maxImageDimension\<close>, and the result of
  \<^verbatim>\<open>imaging.Fit\<close> otherwise.
\<close>

lemma upload_stores_image:
  assumes "\<not> get_error x" "playlists w (playlistId r) = Some pls" "ctx_user r = Some usr"
    "authorized pls usr" "parse_form_ok r" "form_file r = Some bs" "decode x bs = Some img0"
    "playlistImagePath (DataFolder cfg) (playlistId r) = (dir, True)"
    "mkdir_ok x" "save_ok x" "put_ok x"
  shows "uploadPlaylistImage cfg x r w =
           (if marshal_ok x then JsonID (playlistId r)
            else HttpError ''internal server error'' StatusInternalServerError,
            w\<lparr>trace := trace w @ [RepoGet (playlistId r), UserFrom, ImageDecode] @
                    (if oversized img0 then [ImageFit] else []) @
                    [PathCheck (playlistId r), MkdirAll dir, Save (Join [dir, ''cover.jpg'']),
                     RepoPut (pls\<lparr>ImagePath := Join [dir, ''cover.jpg'']\<rparr>)],
              dirs := dirs w \<union> set (dir_chain dir),
              files := (files w)(Join [dir, ''cover.jpg''] \<mapsto>
                   (if oversized img0 then fit x img0 maxImageDimension maxImageDimension else img0,
                    CoverJpegQuality cfg)),
              playlists := (playlists w)(pls_ID pls \<mapsto> pls\<lparr>ImagePath := Join [dir, ''cover.jpg'']\<rparr>)\<rparr>)"
  using assms by (simp add: handler_defs authorized_simp oversized_def)

text \<open>
  Claim C8: for every Upload or Remove of an existing playlist whose caller is neither the
  owner of the playlist nor an administrator, the operation fails with \<^verbatim>\<open>Forbidden\<close>
  (403), and the world after it is the world before it but for the two reads recorded in
  the trace (the repository \<^verbatim>\<open>Get\<close> and the user of the request context): no directory or
  file is written or deleted, and no \<^verbatim>\<open>Put\<close> is made.
\<close>

theorem forbidden_caller_changes_nothing:
  assumes "\<not> get_error x" "playlists w (playlistId r) = Some pls" "ctx_user r = Some usr"
    "\<not> authorized pls usr"
  shows "uploadPlaylistImage cfg x r w =
           (HttpError ''you do not have permission to modify this playlist'' StatusForbidden,
            w\<lparr>trace := trace w @ [RepoGet (playlistId r), UserFrom]\<rparr>) \<and>
         deletePlaylistImage cfg x r w =
           (HttpError ''you do not have permission to modify this playlist'' StatusForbidden,
            w\<lparr>trace := trace w @ [RepoGet (playlistId r), UserFrom]\<rparr>)"
  using assms by (simp add: handler_defs authorized_def)

text \<open>The theorem at a concrete input.\<close>

theorem forbidden_caller_changes_nothing_witness:
  "\<not> authorized (example_playlist ''p1'' ''/data/playlist-images/p1/cover.jpg'') example_other \<and>
   uploadPlaylistImage example_cfg (example_extern True True)
       (example_request ''p1'' example_other ''PNG'')
       (example_world ''p1'' ''/data/playlist-images/p1/cover.jpg'') =
     (HttpError ''you do not have permission to modify this playlist'' StatusForbidden,
      (example_world ''p1'' ''/data/playlist-images/p1/cover.jpg'')
        \<lparr>trace := [RepoGet ''p1'', UserFrom]\<rparr>) \<and>
   deletePlaylistImage example_cfg (example_extern True True)
       (example_request ''p1'' example_other ''PNG'')
       (example_world ''p1'' ''/data/playlist-images/p1/cover.jpg'') =
     (HttpError ''you do not have permission to modify this playlist'' StatusForbidden,
      (example_world ''p1'' ''/data/playlist-images/p1/cover.jpg'')
        \<lparr>trace := [RepoGet ''p1'', UserFrom]\<rparr>)"
proof -
  have a: "\<not> authorized (example_playlist ''p1'' ''/data/playlist-images/p1/cover.jpg'') example_other"
    by (simp add: authorized_def example_defs)
  show ?thesis
    using forbidden_caller_changes_nothing[of "example_extern True True"
        "example_world ''p1'' ''/data/playlist-images/p1/cover.jpg''"
        "example_request ''p1'' example_other ''PNG''"
        "example_playlist ''p1'' ''/data/playlist-images/p1/cover.jpg''"
        example_other example_cfg] a
    by (simp add: example_defs)
qed

text \<open>
  Claim C9: for every existing playlist whose image path is empty, Remove by an authorized
  caller fails with \<^verbatim>\<open>NotFound\<close> (404 \<^verbatim>\<open>playlist has no custom image\<close>) and does
  nothing but the two reads. Consequently, when a Remove on a playlist with an image
  succeeds (its \<^verbatim>\<open>Put\<close> and the marshalling succeed), a second Remove on the resulting
  world fails with \<^verbatim>\<open>NotFound\<close> and changes nothing.
\<close>

theorem delete_without_image_not_found:
  assumes "\<not> get_error x" "playlists w (playlistId r) = Some pls" "pls_ID pls = playlistId r"
    "ctx_user r = Some usr" "authorized pls usr"
  shows "(ImagePath pls = [] \<longrightarrow>
            deletePlaylistImage cfg x r w =
              (HttpError ''playlist has no custom image'' StatusNotFound,
               w\<lparr>trace := trace w @ [RepoGet (playlistId r), UserFrom]\<rparr>)) \<and>
         (ImagePath pls \<noteq> [] \<and> put_ok x \<and> marshal_ok x \<and> \<not> get_error x' \<longrightarrow>
            fst (deletePlaylistImage cfg x r w) = JsonID (playlistId r) \<and>
            deletePlaylistImage cfg x' r (snd (deletePlaylistImage cfg x r w)) =
              (HttpError ''playlist has no custom image'' StatusNotFound,
               (snd (deletePlaylistImage cfg x r w))
                 \<lparr>trace := trace (snd (deletePlaylistImage cfg x r w)) @
                      [RepoGet (playlistId r), UserFrom]\<rparr>))"
proof (intro conjI impI)
  assume "ImagePath pls = []"
  with assms show "deletePlaylistImage cfg x r w =
      (HttpError ''playlist has no custom image'' StatusNotFound,
       w\<lparr>trace := trace w @ [RepoGet (playlistId r), UserFrom]\<rparr>)"
    by (intro delete_without_image)
next
  assume h: "ImagePath pls \<noteq> [] \<and> put_ok x \<and> marshal_ok x \<and> \<not> get_error x'"
  obtain dir safe where ps: "playlistImagePath (DataFolder cfg) (playlistId r) = (dir, safe)"
    by (cases "playlistImagePath (DataFolder cfg) (playlistId r)") auto
  from h have ne: "ImagePath pls \<noteq> []" by simp
  note first = delete_with_image[OF assms(1,2,4,5) ne ps]
  from first h show "fst (deletePlaylistImage cfg x r w) = JsonID (playlistId r)" by simp
  let ?w' = "snd (deletePlaylistImage cfg x r w)"
  let ?pls' = "pls\<lparr>ImagePath := []\<rparr>"
  from first h assms(3) have pl: "playlists ?w' (playlistId r) = Some ?pls'" by simp
  from h have g: "\<not> get_error x'" by simp
  have au: "authorized ?pls' usr" using assms(5) by (simp add: authorized_def)
  show "deletePlaylistImage cfg x' r ?w' =
      (HttpError ''playlist has no custom image'' StatusNotFound,
       ?w'\<lparr>trace := trace ?w' @ [RepoGet (playlistId r), UserFrom]\<rparr>)"
    by (rule delete_without_image[OF g pl assms(4) au]) simp
qed

text \<open>The theorem at a concrete input.\<close>

theorem delete_without_image_not_found_witness:
  "authorized (example_playlist ''p1'' []) example_owner \<and>
   deletePlaylistImage example_cfg (example_extern True True)
       (example_request ''p1'' example_owner []) (example_world ''p1'' []) =
     (HttpError ''playlist has no custom image'' StatusNotFound,
      (example_world ''p1'' [])\<lparr>trace := [RepoGet ''p1'', UserFrom]\<rparr>) \<and>
   fst (deletePlaylistImage example_cfg (example_extern True True)
       (example_request ''p1'' example_owner [])
       (example_world ''p1'' ''/data/playlist-images/p1/cover.jpg'')) = JsonID ''p1'' \<and>
   fst (deletePlaylistImage example_cfg (example_extern True True)
       (example_request ''p1'' example_owner [])
       (snd (deletePlaylistImage example_cfg (example_extern True True)
          (example_request ''p1'' example_owner [])
          (example_world ''p1'' ''/data/playlist-images/p1/cover.jpg'')))) =
     HttpError ''playlist has no custom image'' StatusNotFound"
proof -
  have a: "authorized (example_playlist ''p1'' []) example_owner"
    by (simp add: authorized_def example_defs)
  have b: "authorized (example_playlist ''p1'' ''/data/playlist-images/p1/cover.jpg'') example_owner"
    by (simp add: authorized_def example_defs)
  have 1: "deletePlaylistImage example_cfg (example_extern True True)
       (example_request ''p1'' example_owner []) (example_world ''p1'' []) =
     (HttpError ''playlist has no custom image'' StatusNotFound,
      (example_world ''p1'' [])\<lparr>trace := [RepoGet ''p1'', UserFrom]\<rparr>)"
    using delete_without_image_not_found[of "example_extern True True" "example_world ''p1'' []"
        "example_request ''p1'' example_owner []" "example_playlist ''p1'' []" example_owner
        example_cfg "example_extern True True"] a
    by (simp add: example_defs)
  have 2: "fst (deletePlaylistImage example_cfg (example_extern True True)
       (example_request ''p1'' example_owner [])
       (example_world ''p1'' ''/data/playlist-images/p1/cover.jpg'')) = JsonID ''p1'' \<and>
     fst (deletePlaylistImage example_cfg (example_extern True True)
       (example_request ''p1'' example_owner [])
       (snd (deletePlaylistImage example_cfg (example_extern True True)
          (example_request ''p1'' example_owner [])
          (example_world ''p1'' ''/data/playlist-images/p1/cover.jpg'')))) =
     HttpError ''playlist has no custom image'' StatusNotFound"
    using delete_without_image_not_found[of "example_extern True True"
        "example_world ''p1'' ''/data/playlist-images/p1/cover.jpg''"
        "example_request ''p1'' example_owner []"
        "example_playlist ''p1'' ''/data/playlist-images/p1/cover.jpg''" example_owner
        example_cfg "example_extern True True"] b
    by (simp add: example_defs)
  from a 1 2 show ?thesis by simp
qed

text \<open>
  Claim C10: for every Remove on a playlist with a non-empty image path whose playlist id
  resolves to an unsafe path, the handler does not fail with \<^verbatim>\<open>InvalidIdentifier\<close>: it
  makes no file system call, it still puts the playlist with the empty image path, and it
  reports success when that \<^verbatim>\<open>Put\<close> succeeds (and the response can be marshalled).
\<close>

theorem delete_unsafe_id_clears_path:
  assumes "\<not> get_error x" "playlists w (playlistId r) = Some pls" "pls_ID pls = playlistId r"
    "ctx_user r = Some usr" "authorized pls usr" "ImagePath pls \<noteq> []"
    "\<not> snd (playlistImagePath (DataFolder cfg) (playlistId r))"
  shows "deletePlaylistImage cfg x r w =
           (if put_ok x
            then (if marshal_ok x then JsonID (playlistId r)
                  else HttpError ''internal server error'' StatusInternalServerError,
                  w\<lparr>trace := trace w @ [RepoGet (playlistId r), UserFrom, PathCheck (playlistId r),
                                        RepoPut (pls\<lparr>ImagePath := []\<rparr>)],
                    playlists := (playlists w)(playlistId r \<mapsto> pls\<lparr>ImagePath := []\<rparr>)\<rparr>)
            else (HttpError ''internal server error'' StatusInternalServerError,
                  w\<lparr>trace := trace w @ [RepoGet (playlistId r), UserFrom, PathCheck (playlistId r),
                                        RepoPut (pls\<lparr>ImagePath := []\<rparr>)]\<rparr>))"
proof -
  obtain dir where ps: "playlistImagePath (DataFolder cfg) (playlistId r) = (dir, False)"
    using assms(7) by (cases "playlistImagePath (DataFolder cfg) (playlistId r)") auto
  show ?thesis
    unfolding delete_with_image[OF assms(1,2,4,5,6) ps] using assms(3) by simp
qed

text \<open>The theorem at a concrete input.\<close>

theorem delete_unsafe_id_clears_path_witness:
  "authorized (example_playlist ''..'' ''stale.jpg'') example_owner \<and>
   \<not> snd (playlistImagePath (DataFolder example_cfg) ''..'') \<and>
   deletePlaylistImage example_cfg (example_extern True True)
       (example_request ''..'' example_owner []) (example_world ''..'' ''stale.jpg'') =
     (JsonID ''..'',
      (example_world ''..'' ''stale.jpg'')
        \<lparr>trace := [RepoGet ''..'', UserFrom, PathCheck ''..'', RepoPut (example_playlist ''..'' [])],
          playlists := [''..'' \<mapsto> example_playlist ''..'' []]\<rparr>)"
proof -
  have a: "authorized (example_playlist ''..'' ''stale.jpg'') example_owner"
    by (simp add: authorized_def example_defs)
  have u: "\<not> snd (playlistImagePath (DataFolder example_cfg) ''..'')"
    by (simp add: example_cfg_def example_unsafe)
  show ?thesis
    using delete_unsafe_id_clears_path[of "example_extern True True"
        "example_world ''..'' ''stale.jpg''" "example_request ''..'' example_owner []"
        "example_playlist ''..'' ''stale.jpg''" example_owner example_cfg] a u
    by (simp add: example_defs)
qed

end
